theory Spec2Isabelle
  imports
    Complex_Main
    "HOL-Library.List_Lexorder"
    "HOL-Library.Char_ord"
    "HOL-Library.AList"
begin

section \<open>Numbers and text as the C++ library produces them\<close>

text \<open>
  A \<^verbatim>\<open>double\<close> is modelled by the real number it denotes and its arithmetic is exact:
  rounding of IEEE operations, infinities and NaN are outside the model. Every concrete
  input used below is far enough from a cell border, or exactly representable, so that the
  exact and the IEEE computation agree.

  \<^verbatim>\<open>static_cast<int>(x)\<close> truncates toward zero; it is undefined in C++ when the truncated
  value does not fit an \<^verbatim>\<open>int\<close>, which \<open>int_representable\<close> records.
\<close>

definition static_cast_int :: "real \<Rightarrow> int" where
  "static_cast_int x = (if 0 \<le> x then \<lfloor>x\<rfloor> else \<lceil>x\<rceil>)"

definition INT_MAX :: int where
  "INT_MAX = 2147483647"

definition int_representable :: "real \<Rightarrow> bool" where
  "int_representable x \<longleftrightarrow> - INT_MAX - 1 \<le> static_cast_int x \<and> static_cast_int x \<le> INT_MAX"

text \<open>Decimal digits of a natural number, most significant first (never empty).\<close>

fun dec_digits :: "nat \<Rightarrow> string" where
  "dec_digits n =
     (if n < 10 then [''0123456789'' ! n]
      else dec_digits (n div 10) @ [''0123456789'' ! (n mod 10)])"

declare dec_digits.simps [simp del]

text \<open>\<^verbatim>\<open>operator<<(int)\<close> with the default flags.\<close>

definition int_to_string :: "int \<Rightarrow> string" where
  "int_to_string i = (if i < 0 then ''-'' @ dec_digits (nat (- i)) else dec_digits (nat i))"

text \<open>\<^verbatim>\<open>std::setw(w) << std::setfill(c)\<close>: pad on the left up to width \<open>w\<close>, never truncate.\<close>

definition setw_setfill :: "nat \<Rightarrow> char \<Rightarrow> string \<Rightarrow> string" where
  "setw_setfill w c s = replicate (w - length s) c @ s"

text \<open>Rounding to the nearest integer, ties to even, as \<^verbatim>\<open>printf\<close> rounds the exact value.\<close>

definition round_half_even :: "real \<Rightarrow> int" where
  "round_half_even x =
     (let f = \<lfloor>x\<rfloor>; d = x - of_int f
      in if d < 1 / 2 then f else if 1 / 2 < d then f + 1 else if even f then f else f + 1)"

text \<open>
  \<^verbatim>\<open>std::fixed << std::setprecision(7) << x\<close>: sign, integer part, a point, exactly seven
  fractional digits.
\<close>

definition fixed7 :: "real \<Rightarrow> string" where
  "fixed7 x =
     (let n = nat (round_half_even (\<bar>x\<bar> * 10 ^ 7))
      in (if x < 0 then ''-'' else '''') @ dec_digits (n div 10 ^ 7) @ ''.'' @
         setw_setfill 7 (CHR ''0'') (dec_digits (n mod 10 ^ 7)))"

text \<open>
  \<^verbatim>\<open>std::stod\<close> on decimal text: leading white space, an optional sign, digits with an
  optional point, an optional exponent; what follows is ignored. No digits at all is the
  \<^verbatim>\<open>invalid_argument\<close> exception, here \<open>None\<close>. Hexadecimal, \<^verbatim>\<open>inf\<close> and \<^verbatim>\<open>nan\<close> forms and
  the \<^verbatim>\<open>out_of_range\<close> exception are outside the model; the engine never writes them.
\<close>

definition isspace :: "char \<Rightarrow> bool" where
  "isspace c \<longleftrightarrow> c \<in> set [CHR '' '', CHR 0x09, CHR 0x0A, CHR 0x0B, CHR 0x0C, CHR 0x0D]"

definition isdigit :: "char \<Rightarrow> bool" where
  "isdigit c \<longleftrightarrow> c \<in> set ''0123456789''"

definition digit_value :: "char \<Rightarrow> nat" where
  "digit_value c = length (takeWhile (\<lambda>d. d \<noteq> c) ''0123456789'')"

definition digits_value :: "string \<Rightarrow> nat" where
  "digits_value ds = foldl (\<lambda>n c. 10 * n + digit_value c) 0 ds"

definition strip_sign :: "string \<Rightarrow> bool \<times> string" where
  "strip_sign s =
     (case s of
        [] \<Rightarrow> (False, s)
      | c # r \<Rightarrow> if c = CHR ''-'' then (True, r) else if c = CHR ''+'' then (False, r) else (False, s))"

definition stod_exponent :: "string \<Rightarrow> int" where
  "stod_exponent s =
     (case s of
        [] \<Rightarrow> 0
      | c # r \<Rightarrow>
          if c = CHR ''e'' \<or> c = CHR ''E'' then
            (let (neg, r') = strip_sign r; ds = takeWhile isdigit r'
             in if ds = [] then 0 else (if neg then - int (digits_value ds) else int (digits_value ds)))
          else 0)"

definition stod :: "string \<Rightarrow> real option" where
  "stod s =
     (let (neg, s2) = strip_sign (dropWhile isspace s);
          ip = takeWhile isdigit s2;
          s3 = dropWhile isdigit s2;
          (fp, s4) = (case s3 of
                        [] \<Rightarrow> ([], s3)
                      | c # r \<Rightarrow> if c = CHR ''.'' then (takeWhile isdigit r, dropWhile isdigit r)
                                 else ([], s3));
          ex = stod_exponent s4;
          m = real (digits_value (ip @ fp)) / 10 ^ length fp;
          a = (if 0 \<le> ex then m * 10 ^ nat ex else m / 10 ^ nat (- ex))
      in if ip = [] \<and> fp = [] then None else Some (if neg then - a else a))"


section \<open>The ordered key-value store (LevelDBManager)\<close>

text \<open>
  LevelDB itself is an external collaborator: an ordered map from byte strings to byte
  strings. It is modelled by an association list with distinct keys; its iterator visits
  the entries in byte-lexicographic key order. I/O failures are outside the model.
\<close>

type_synonym LevelDB = "(string \<times> string) list"

definition LevelDBManager_put :: "LevelDB \<Rightarrow> string \<Rightarrow> string \<Rightarrow> LevelDB" where
  "LevelDBManager_put db key v = AList.update key v db"

definition LevelDBManager_get :: "LevelDB \<Rightarrow> string \<Rightarrow> string option" where
  "LevelDBManager_get db key = map_of db key"

text \<open>
  \<^verbatim>\<open>rangeQuery\<close>: seek to the first key \<open>\<ge> start_key\<close>, visit the entries in order and stop at
  the first key \<open>\<ge> end_key\<close> (an empty \<open>end_key\<close> never stops). The result is the list of
  callback invocations.
\<close>

definition LevelDBManager_rangeQuery :: "LevelDB \<Rightarrow> string \<Rightarrow> string \<Rightarrow> (string \<times> string) list" where
  "LevelDBManager_rangeQuery db start_key end_key =
     takeWhile (\<lambda>(k, v). \<not> (end_key \<noteq> [] \<and> end_key \<le> k))
       (dropWhile (\<lambda>(k, v). k < start_key) (sort_key fst db))"

text \<open>\<^verbatim>\<open>BatchWriter\<close>: staged operations, applied together by \<^verbatim>\<open>commit\<close>.\<close>

datatype batch_op = BatchPut string string | BatchDel string

type_synonym BatchWriter = "batch_op list"

definition createBatch :: BatchWriter where
  "createBatch = []"

definition BatchWriter_put :: "BatchWriter \<Rightarrow> string \<Rightarrow> string \<Rightarrow> BatchWriter" where
  "BatchWriter_put b key v = b @ [BatchPut key v]"

fun apply_batch_op :: "LevelDB \<Rightarrow> batch_op \<Rightarrow> LevelDB" where
  "apply_batch_op db (BatchPut k v) = AList.update k v db"
| "apply_batch_op db (BatchDel k) = AList.delete k db"

definition BatchWriter_commit :: "LevelDB \<Rightarrow> BatchWriter \<Rightarrow> LevelDB" where
  "BatchWriter_commit db b = foldl apply_batch_op db b"


section \<open>The grid cache (GridLRUCache)\<close>

text \<open>
  \<^verbatim>\<open>GridCacheItem\<close>: the \<^verbatim>\<open>unordered_map\<close> of a cell is an association list with distinct
  keys (the iteration order of the C++ container is unspecified; the list fixes one).
\<close>

record GridCacheItem =
  grid_id :: string
  data :: "(string \<times> string) list"

text \<open>
  \<^verbatim>\<open>access_list_\<close> holds the resident ids, most recently used first. \<^verbatim>\<open>cache_map_\<close> maps an id
  to its item and to the list node of that id; the node is identified by the id itself,
  which occurs once in the list.
\<close>

record GridLRUCache =
  capacity :: nat
  access_list :: "string list"
  cache_map :: "(string \<times> GridCacheItem) list"

definition GridLRUCache_new :: "nat \<Rightarrow> GridLRUCache" where
  "GridLRUCache_new c =
     \<lparr>capacity = (if 0 < c then c else 1000), access_list = [], cache_map = []\<rparr>"

definition GridLRUCache_get :: "GridLRUCache \<Rightarrow> string \<Rightarrow> GridCacheItem option \<times> GridLRUCache" where
  "GridLRUCache_get c gid =
     (case map_of (cache_map c) gid of
        None \<Rightarrow> (None, c)
      | Some item \<Rightarrow> (Some item, c\<lparr>access_list := gid # remove1 gid (access_list c)\<rparr>))"

text \<open>
  \<^verbatim>\<open>put\<close>: an existing id leaves its list node; otherwise a full cache drops the id at the
  back of the list. Then the id enters at the front. (\<^verbatim>\<open>back()\<close> of an empty list is
  undefined in C++; it cannot occur, the capacity being positive, and the model leaves the
  cache as it is.)
\<close>

definition GridLRUCache_put :: "GridLRUCache \<Rightarrow> string \<Rightarrow> GridCacheItem \<Rightarrow> GridLRUCache" where
  "GridLRUCache_put c gid item =
     (let c1 =
        (if map_of (cache_map c) gid \<noteq> None then
           c\<lparr>access_list := remove1 gid (access_list c)\<rparr>
         else if capacity c \<le> length (cache_map c) then
           (case rev (access_list c) of
              [] \<Rightarrow> c
            | lst # _ \<Rightarrow> c\<lparr>cache_map := AList.delete lst (cache_map c),
                            access_list := butlast (access_list c)\<rparr>)
         else c)
      in c1\<lparr>access_list := gid # access_list c1,
            cache_map := AList.update gid item (cache_map c1)\<rparr>)"

definition GridLRUCache_remove :: "GridLRUCache \<Rightarrow> string \<Rightarrow> GridLRUCache" where
  "GridLRUCache_remove c gid =
     (case map_of (cache_map c) gid of
        None \<Rightarrow> c
      | Some item \<Rightarrow> c\<lparr>access_list := remove1 gid (access_list c),
                        cache_map := AList.delete gid (cache_map c)\<rparr>)"

definition GridLRUCache_clear :: "GridLRUCache \<Rightarrow> GridLRUCache" where
  "GridLRUCache_clear c = c\<lparr>cache_map := [], access_list := []\<rparr>"

definition GridLRUCache_size :: "GridLRUCache \<Rightarrow> nat" where
  "GridLRUCache_size c = length (cache_map c)"

text \<open>
  \<^verbatim>\<open>cache_item->data[key] = value\<close> through the shared pointer returned by \<^verbatim>\<open>get\<close>: the item
  held by the cache under that id changes in place.
\<close>

definition item_assign :: "GridLRUCache \<Rightarrow> string \<Rightarrow> string \<Rightarrow> string \<Rightarrow> GridLRUCache" where
  "item_assign c gid key v =
     (case map_of (cache_map c) gid of
        None \<Rightarrow> c
      | Some item \<Rightarrow>
          c\<lparr>cache_map := AList.update gid (item\<lparr>data := AList.update key v (data item)\<rparr>) (cache_map c)\<rparr>)"


section \<open>The terrain storage engine (TerrainStorageEngine)\<close>

datatype TerrainStorageException =
    GridSizeNotPositive
  | CoordinateOutOfRange real real

record TerrainStorageEngine =
  db_manager :: LevelDB
  min_lon :: real
  min_lat :: real
  max_lon :: real
  max_lat :: real
  grid_size :: real
  grid_rows :: int
  grid_cols :: int
  id_width :: int
  cache :: GridLRUCache

text \<open>
  The constructor throws for a non-positive grid size and checks nothing else. Its two
  casts are undefined when the cell counts do not fit an \<^verbatim>\<open>int\<close>.
\<close>

datatype construction =
    Constructed TerrainStorageEngine
  | Thrown TerrainStorageException
  | UndefinedCast

definition TerrainStorageEngine_new ::
  "LevelDB \<Rightarrow> real \<Rightarrow> real \<Rightarrow> real \<Rightarrow> real \<Rightarrow> real \<Rightarrow> nat \<Rightarrow> construction" where
  "TerrainStorageEngine_new db mn_lon mn_lat mx_lon mx_lat g cache_capacity =
     (if g \<le> 0 then Thrown GridSizeNotPositive
      else
        (let c = of_int \<lceil>(mx_lon - mn_lon) / g\<rceil>;
             r = of_int \<lceil>(mx_lat - mn_lat) / g\<rceil>
         in if int_representable c \<and> int_representable r then
              Constructed
                \<lparr>db_manager = db, min_lon = mn_lon, min_lat = mn_lat,
                 max_lon = mx_lon, max_lat = mx_lat, grid_size = g,
                 grid_rows = static_cast_int r, grid_cols = static_cast_int c,
                 id_width = 3, cache = GridLRUCache_new cache_capacity\<rparr>
            else UndefinedCast))"

definition isWithinBounds :: "TerrainStorageEngine \<Rightarrow> real \<Rightarrow> real \<Rightarrow> bool" where
  "isWithinBounds e lon lat \<longleftrightarrow>
     min_lon e \<le> lon \<and> lon \<le> max_lon e \<and> min_lat e \<le> lat \<and> lat \<le> max_lat e"

subsection \<open>Grid index\<close>

definition lonToGridCol :: "TerrainStorageEngine \<Rightarrow> real \<Rightarrow> int" where
  "lonToGridCol e lon =
     (let normalized = max (min_lon e) (min (max_lon e) lon)
      in static_cast_int ((normalized - min_lon e) / grid_size e))"

definition latToGridRow :: "TerrainStorageEngine \<Rightarrow> real \<Rightarrow> int" where
  "latToGridRow e lat =
     (let normalized = max (min_lat e) (min (max_lat e) lat)
      in static_cast_int ((normalized - min_lat e) / grid_size e))"

definition formatGridId :: "int \<Rightarrow> int \<Rightarrow> string" where
  "formatGridId row col =
     ''G_'' @ setw_setfill 3 (CHR ''0'') (int_to_string row) @ ''_'' @
     setw_setfill 3 (CHR ''0'') (int_to_string col)"

definition computeGridId :: "TerrainStorageEngine \<Rightarrow> real \<Rightarrow> real \<Rightarrow> string" where
  "computeGridId e lon lat =
     (let col = lonToGridCol e lon; row = latToGridRow e lat in formatGridId row col)"

definition generateKey :: "real \<Rightarrow> real \<Rightarrow> string \<Rightarrow> string" where
  "generateKey lon lat gid = gid @ ''|'' @ fixed7 lon @ ''|'' @ fixed7 lat"

text \<open>\<^verbatim>\<open>parseKey\<close>: the text between the first two bars and the text after the second.\<close>

definition parseKey :: "string \<Rightarrow> (real \<times> real) option" where
  "parseKey key =
     (case dropWhile (\<lambda>c. c \<noteq> CHR ''|'') key of
        [] \<Rightarrow> None
      | _ # r \<Rightarrow>
          (case dropWhile (\<lambda>c. c \<noteq> CHR ''|'') r of
             [] \<Rightarrow> None
           | _ # t \<Rightarrow>
               (case stod (takeWhile (\<lambda>c. c \<noteq> CHR ''|'') r) of
                  None \<Rightarrow> None
                | Some lon \<Rightarrow>
                    (case stod t of None \<Rightarrow> None | Some lat \<Rightarrow> Some (lon, lat)))))"

subsection \<open>Loading a cell\<close>

text \<open>
  \<^verbatim>\<open>loadGridToCache\<close> returns the shared pointer it has just made (\<open>Some\<close>: it is never
  null) and the engine with the item installed.
\<close>

definition loadGridToCache ::
  "TerrainStorageEngine \<Rightarrow> string \<Rightarrow> GridCacheItem option \<times> TerrainStorageEngine" where
  "loadGridToCache e gid =
     (let start_key = gid @ ''|'';
          end_key = gid @ ''|~'';
          item = \<lparr>grid_id = gid,
                  data = foldl (\<lambda>d (k, v). AList.update k v d) []
                           (LevelDBManager_rangeQuery (db_manager e) start_key end_key)\<rparr>
      in (Some item, e\<lparr>cache := GridLRUCache_put (cache e) gid item\<rparr>))"

subsection \<open>Point operations\<close>

text \<open>The \<^verbatim>\<open>sync\<close> flag only concerns durability and is left out.\<close>

definition put ::
  "TerrainStorageEngine \<Rightarrow> real \<Rightarrow> real \<Rightarrow> string \<Rightarrow> TerrainStorageException + TerrainStorageEngine" where
  "put e lon lat v =
     (if \<not> isWithinBounds e lon lat then Inl (CoordinateOutOfRange lon lat)
      else
        (let gid = computeGridId e lon lat;
             key = generateKey lon lat gid;
             (cache_item, c1) = GridLRUCache_get (cache e) gid;
             c2 = (case cache_item of None \<Rightarrow> c1 | Some _ \<Rightarrow> item_assign c1 gid key v)
         in Inr (e\<lparr>cache := c2, db_manager := LevelDBManager_put (db_manager e) key v\<rparr>)))"

text \<open>
  \<^verbatim>\<open>get\<close> returns \<open>Some v\<close> for \<^verbatim>\<open>true\<close> with \<open>v\<close> in the output parameter, \<open>None\<close> for
  \<^verbatim>\<open>false\<close>.
\<close>

definition get :: "TerrainStorageEngine \<Rightarrow> real \<Rightarrow> real \<Rightarrow> string option \<times> TerrainStorageEngine" where
  "get e lon lat =
     (if \<not> isWithinBounds e lon lat then (None, e)
      else
        (let gid = computeGridId e lon lat;
             key = generateKey lon lat gid;
             (cache_item, c1) = GridLRUCache_get (cache e) gid;
             e1 = e\<lparr>cache := c1\<rparr>
         in case (case cache_item of None \<Rightarrow> None | Some item \<Rightarrow> map_of (data item) key) of
              Some v \<Rightarrow> (Some v, e1)
            | None \<Rightarrow>
                (case LevelDBManager_get (db_manager e1) key of
                   Some v \<Rightarrow>
                     (case cache_item of
                        None \<Rightarrow> (Some v, snd (loadGridToCache e1 gid))
                      | Some _ \<Rightarrow> (Some v, e1\<lparr>cache := item_assign c1 gid key v\<rparr>))
                 | None \<Rightarrow>
                     (case cache_item of
                        None \<Rightarrow> (None, snd (loadGridToCache e1 gid))
                      | Some _ \<Rightarrow> (None, e1)))))"

subsection \<open>Batch insertion\<close>

text \<open>
  The loop of \<^verbatim>\<open>batchPut\<close>: each point is checked, written to its cell if the cell is
  resident, and staged in the batch. An exception leaves the loop with the cache as it is
  by then; the staged batch is dropped.
\<close>

fun batchPut_loop ::
  "TerrainStorageEngine \<Rightarrow> BatchWriter \<Rightarrow> (real \<times> real \<times> string) list \<Rightarrow>
   (TerrainStorageException + BatchWriter) \<times> TerrainStorageEngine" where
  "batchPut_loop e batch [] = (Inr batch, e)"
| "batchPut_loop e batch ((lon, lat, v) # rest) =
     (if \<not> isWithinBounds e lon lat then (Inl (CoordinateOutOfRange lon lat), e)
      else
        (let gid = computeGridId e lon lat;
             key = generateKey lon lat gid;
             (cache_item, c1) = GridLRUCache_get (cache e) gid;
             c2 = (case cache_item of None \<Rightarrow> c1 | Some _ \<Rightarrow> item_assign c1 gid key v)
         in batchPut_loop (e\<lparr>cache := c2\<rparr>) (BatchWriter_put batch key v) rest))"

definition batchPut ::
  "TerrainStorageEngine \<Rightarrow> (real \<times> real \<times> string) list \<Rightarrow>
   (TerrainStorageException + unit) \<times> TerrainStorageEngine" where
  "batchPut e points =
     (case batchPut_loop e createBatch points of
        (Inl ex, e1) \<Rightarrow> (Inl ex, e1)
      | (Inr batch, e1) \<Rightarrow>
          (Inr (), e1\<lparr>db_manager := BatchWriter_commit (db_manager e1) batch\<rparr>))"

subsection \<open>Range queries\<close>

text \<open>
  A callback is modelled by the list of its invocations. \<^verbatim>\<open>processGrid\<close> also reports which
  of its two branches ran.
\<close>

datatype scan_path = FromCache | FromStore

definition in_rectangle :: "real \<Rightarrow> real \<Rightarrow> real \<Rightarrow> real \<Rightarrow> real \<times> real \<Rightarrow> bool" where
  "in_rectangle qmin_lon qmin_lat qmax_lon qmax_lat p \<longleftrightarrow>
     qmin_lon \<le> fst p \<and> fst p \<le> qmax_lon \<and> qmin_lat \<le> snd p \<and> snd p \<le> qmax_lat"

definition scan_entries ::
  "real \<Rightarrow> real \<Rightarrow> real \<Rightarrow> real \<Rightarrow> (string \<times> string) list \<Rightarrow> (real \<times> real \<times> string) list" where
  "scan_entries qmin_lon qmin_lat qmax_lon qmax_lat kvs =
     concat (map (\<lambda>(k, v).
       case parseKey k of
         None \<Rightarrow> []
       | Some p \<Rightarrow> if in_rectangle qmin_lon qmin_lat qmax_lon qmax_lat p
                   then [(fst p, snd p, v)] else []) kvs)"

definition processGrid ::
  "TerrainStorageEngine \<Rightarrow> string \<Rightarrow> real \<Rightarrow> real \<Rightarrow> real \<Rightarrow> real \<Rightarrow>
   ((real \<times> real \<times> string) list \<times> scan_path) \<times> TerrainStorageEngine" where
  "processGrid e gid qmin_lon qmin_lat qmax_lon qmax_lat =
     (let (found, c1) = GridLRUCache_get (cache e) gid;
          e1 = e\<lparr>cache := c1\<rparr>;
          (cache_item, e2) = (case found of None \<Rightarrow> loadGridToCache e1 gid | Some item \<Rightarrow> (Some item, e1))
      in case cache_item of
           Some item \<Rightarrow>
             ((scan_entries qmin_lon qmin_lat qmax_lon qmax_lat (data item), FromCache), e2)
         | None \<Rightarrow>
             ((scan_entries qmin_lon qmin_lat qmax_lon qmax_lat
                 (LevelDBManager_rangeQuery (db_manager e2) (gid @ ''|'') (gid @ ''|~'')), FromStore), e2))"

text \<open>The cells a query visits, row by row.\<close>

definition covered_cells :: "TerrainStorageEngine \<Rightarrow> real \<Rightarrow> real \<Rightarrow> real \<Rightarrow> real \<Rightarrow> string list" where
  "covered_cells e qmin_lon qmin_lat qmax_lon qmax_lat =
     (let start_col = max 0 (lonToGridCol e qmin_lon);
          end_col = min (grid_cols e - 1) (lonToGridCol e qmax_lon);
          start_row = max 0 (latToGridRow e qmin_lat);
          end_row = min (grid_rows e - 1) (latToGridRow e qmax_lat)
      in concat (map (\<lambda>row. map (\<lambda>col. formatGridId row col) [start_col..end_col])
                     [start_row..end_row]))"

fun rangeQuery_loop ::
  "TerrainStorageEngine \<Rightarrow> string list \<Rightarrow> real \<Rightarrow> real \<Rightarrow> real \<Rightarrow> real \<Rightarrow>
   ((real \<times> real \<times> string) list \<times> scan_path list) \<times> TerrainStorageEngine" where
  "rangeQuery_loop e [] qmin_lon qmin_lat qmax_lon qmax_lat = (([], []), e)"
| "rangeQuery_loop e (gid # gids) qmin_lon qmin_lat qmax_lon qmax_lat =
     (let ((calls, path), e1) = processGrid e gid qmin_lon qmin_lat qmax_lon qmax_lat;
          ((calls', paths), e2) = rangeQuery_loop e1 gids qmin_lon qmin_lat qmax_lon qmax_lat
      in ((calls @ calls', path # paths), e2))"

definition rangeQuery ::
  "TerrainStorageEngine \<Rightarrow> real \<Rightarrow> real \<Rightarrow> real \<Rightarrow> real \<Rightarrow>
   ((real \<times> real \<times> string) list \<times> scan_path list) \<times> TerrainStorageEngine" where
  "rangeQuery e qmin_lon qmin_lat qmax_lon qmax_lat =
     rangeQuery_loop e (covered_cells e qmin_lon qmin_lat qmax_lon qmax_lat)
       qmin_lon qmin_lat qmax_lon qmax_lat"

subsection \<open>Cache management\<close>

definition preloadGrid :: "TerrainStorageEngine \<Rightarrow> string \<Rightarrow> TerrainStorageEngine" where
  "preloadGrid e gid = snd (loadGridToCache e gid)"

definition evictGridFromCache :: "TerrainStorageEngine \<Rightarrow> string \<Rightarrow> TerrainStorageEngine" where
  "evictGridFromCache e gid = e\<lparr>cache := GridLRUCache_remove (cache e) gid\<rparr>"

definition clearCache :: "TerrainStorageEngine \<Rightarrow> TerrainStorageEngine" where
  "clearCache e = e\<lparr>cache := GridLRUCache_clear (cache e)\<rparr>"

definition getCacheSize :: "TerrainStorageEngine \<Rightarrow> nat" where
  "getCacheSize e = GridLRUCache_size (cache e)"

subsection \<open>The engine of the test fixture\<close>

text \<open>
  \<^verbatim>\<open>TerrainStorageTest::SetUp\<close>: the Beijing region, cells of 0.01 degrees, 500 cached
  cells, here over an empty store.
\<close>

definition beijing :: TerrainStorageEngine where
  "beijing =
     \<lparr>db_manager = [], min_lon = 116.0, min_lat = 39.0, max_lon = 117.5, max_lat = 41.0,
      grid_size = 0.01, grid_rows = 200, grid_cols = 150, id_width = 3,
      cache = GridLRUCache_new 500\<rparr>"

section \<open>Well-formed states and access traces\<close>

text \<open>
  The cache as its operations keep it: a positive capacity, the resident ids listed once
  each, the map holding exactly the listed ids, and no more of them than the capacity.
\<close>

definition lru_inv :: "GridLRUCache \<Rightarrow> bool" where
  "lru_inv c \<longleftrightarrow>
     0 < capacity c \<and> distinct (access_list c) \<and> distinct (map fst (cache_map c)) \<and>
     set (access_list c) = fst ` set (cache_map c) \<and> length (access_list c) \<le> capacity c"

text \<open>
  A sequence of accesses to the cache. Running it returns, in order, the ids touched: the
  id of every \<open>put\<close> and of every \<open>get\<close> that found its cell. A \<open>get\<close> of a cell that is not
  resident returns nothing, leaves the cache as it is, and touches nothing.
\<close>

datatype cache_op = CacheGet string | CachePut string GridCacheItem

fun run_cache_ops :: "GridLRUCache \<Rightarrow> cache_op list \<Rightarrow> string list \<times> GridLRUCache" where
  "run_cache_ops c [] = ([], c)"
| "run_cache_ops c (CacheGet gid # ops) =
     (case GridLRUCache_get c gid of
        (None, c1) \<Rightarrow> run_cache_ops c1 ops
      | (Some item, c1) \<Rightarrow> (let (ts, c2) = run_cache_ops c1 ops in (gid # ts, c2)))"
| "run_cache_ops c (CachePut gid item # ops) =
     (let (ts, c2) = run_cache_ops (GridLRUCache_put c gid item) ops in (gid # ts, c2))"

text \<open>The entries of the store in the key range of a cell, as a scan of that cell yields them.\<close>

definition cell_entries :: "LevelDB \<Rightarrow> string \<Rightarrow> (string \<times> string) list" where
  "cell_entries db gid = LevelDBManager_rangeQuery db (gid @ ''|'') (gid @ ''|~'')"

text \<open>
  The cache agrees with the store: the store has one value per key, and every resident
  cell holds exactly the entries of the store in its key range. A freshly constructed
  engine and an engine whose cache was cleared are in such a state.
\<close>

definition cache_consistent :: "TerrainStorageEngine \<Rightarrow> bool" where
  "cache_consistent e \<longleftrightarrow>
     lru_inv (cache e) \<and> distinct (map fst (db_manager e)) \<and>
     list_all (\<lambda>(gid, item). set (data item) = set (cell_entries (db_manager e) gid))
       (cache_map (cache e))"


text \<open>
  The number a key records for a coordinate: the coordinate rounded to seven fractional
  digits, ties to even, as \<open>fixed7\<close> prints it.
\<close>

definition round7 :: "real \<Rightarrow> real" where
  "round7 x =
     (if x < 0 then - (real (nat (round_half_even (\<bar>x\<bar> * 10 ^ 7))) / 10 ^ 7)
      else real (nat (round_half_even (\<bar>x\<bar> * 10 ^ 7))) / 10 ^ 7)"

text \<open>
  The state the operations of the engine keep: the cache agrees with the store, no
  resident id contains a bar (the ids the engine computes never do), and no cached cell
  holds a key twice.
\<close>

definition engine_inv :: "TerrainStorageEngine \<Rightarrow> bool" where
  "engine_inv e \<longleftrightarrow>
     cache_consistent e \<and>
     list_all (\<lambda>(gid, item). CHR ''|'' \<notin> set gid \<and> distinct (map fst (data item)))
       (cache_map (cache e))"

text \<open>
  The grid as the constructor derives it: a positive cell size, and rows and columns
  enough for the bounds.
\<close>

definition grid_covers_bounds :: "TerrainStorageEngine \<Rightarrow> bool" where
  "grid_covers_bounds e \<longleftrightarrow>
     0 < grid_size e \<and>
     (max_lon e - min_lon e) / grid_size e \<le> of_int (grid_cols e) \<and>
     (max_lat e - min_lat e) / grid_size e \<le> of_int (grid_rows e)"


section \<open>The worker pool (AdvancedThreadPool)\<close>

datatype TaskPriority = HIGH | NORMAL | LOW

text \<open>\<^verbatim>\<open>static_cast<int>(priority)\<close>.\<close>

fun priority_value :: "TaskPriority \<Rightarrow> int" where
  "priority_value HIGH = 0"
| "priority_value NORMAL = 1"
| "priority_value LOW = 2"

text \<open>A task item: its priority and its callable, identified by a number.\<close>

record TaskItem =
  priority :: TaskPriority
  task :: nat

definition TaskCompare :: "TaskItem \<Rightarrow> TaskItem \<Rightarrow> bool" where
  "TaskCompare a b \<longleftrightarrow> priority_value (priority b) < priority_value (priority a)"

text \<open>
  \<^verbatim>\<open>std::priority_queue<TaskItem, std::vector<TaskItem>, TaskCompare>\<close> is modelled by its
  contract: \<^verbatim>\<open>push\<close> adds an element, \<^verbatim>\<open>top\<close> is an element that the comparison puts below
  no other element of the queue, \<^verbatim>\<open>pop\<close> removes it. Which of several such elements is on
  top is not determined.
\<close>

definition is_top :: "TaskItem list \<Rightarrow> TaskItem \<Rightarrow> bool" where
  "is_top q t \<longleftrightarrow> t \<in> set q \<and> list_all (\<lambda>u. \<not> TaskCompare t u) q"

text \<open>
  Where a worker thread stands in \<^verbatim>\<open>worker_routine\<close>: about to test \<^verbatim>\<open>while (running_)\<close>,
  waiting for the queue under the lock, holding a task it has taken (the lock released, the
  task not yet invoked), running that task, or returned.
\<close>

datatype worker_pc = LoopHead | Waiting | Holding TaskItem | Executing TaskItem | Exited

text \<open>
  The pool: the flag, the queue and its bound, the workers, and what became of the tasks:
  \<open>completed\<close> holds the tasks whose packaged task was invoked (their future holds the
  result or the exception of the task), \<open>abandoned\<close> those whose packaged task was
  destroyed uninvoked (their future holds \<^verbatim>\<open>broken_promise\<close>).
\<close>

record AdvancedThreadPool =
  running :: bool
  max_tasks :: nat
  task_queue :: "TaskItem list"
  workers :: "worker_pc list"
  completed :: "TaskItem list"
  abandoned :: "TaskItem list"

datatype future_state = Pending | Ready | BrokenPromise

definition future_of :: "AdvancedThreadPool \<Rightarrow> TaskItem \<Rightarrow> future_state" where
  "future_of s t =
     (if t \<in> set (completed s) then Ready
      else if t \<in> set (abandoned s) then BrokenPromise
      else Pending)"

text \<open>\<^verbatim>\<open>shutdown\<close> returns when it has joined every worker.\<close>

definition shutdown_returned :: "AdvancedThreadPool \<Rightarrow> bool" where
  "shutdown_returned s \<longleftrightarrow> \<not> running s \<and> list_all (\<lambda>w. w = Exited) (workers s)"

text \<open>The destructor, after its call of \<^verbatim>\<open>shutdown\<close>: the queue is destroyed with its tasks.\<close>

definition destroy :: "AdvancedThreadPool \<Rightarrow> AdvancedThreadPool" where
  "destroy s = s\<lparr>abandoned := abandoned s @ task_queue s, task_queue := []\<rparr>"

datatype pool_event =
    Submit TaskItem
  | Check nat
  | Take nat TaskItem
  | ExitIdle nat
  | Start nat TaskItem
  | Finish nat TaskItem
  | Shutdown
  | Destroy

text \<open>
  The atomic steps of the pool. \<open>Submit\<close>: a task is pushed (a caller that has to wait for
  room in the queue is not modelled). \<open>Check\<close>: a worker tests \<^verbatim>\<open>while (running_)\<close>.
  \<open>Take\<close> and \<open>ExitIdle\<close>: a worker leaves its wait, which needs a task or the end of
  \<open>running\<close>, and either takes the top of the queue or, the queue being empty, returns.
  \<open>Start\<close>: outside the lock, the worker logs the start of the task it holds and invokes
  it. \<open>Finish\<close>: the task returns or throws. \<open>Shutdown\<close>: the flag is cleared (a second call
  changes nothing). \<open>Destroy\<close>: the pool is destroyed once \<^verbatim>\<open>shutdown\<close> has returned. The supervisor,
  the growth of a \<^verbatim>\<open>CACHED\<close> pool while it runs and the expiry of idle workers do not touch
  the queue and are left out.
\<close>

inductive pool_step :: "AdvancedThreadPool \<Rightarrow> pool_event \<Rightarrow> AdvancedThreadPool \<Rightarrow> bool" where
  submit:
    "running s \<Longrightarrow> length (task_queue s) < max_tasks s \<Longrightarrow>
     pool_step s (Submit t) (s\<lparr>task_queue := task_queue s @ [t]\<rparr>)"
| check_running:
    "i < length (workers s) \<Longrightarrow> workers s ! i = LoopHead \<Longrightarrow> running s \<Longrightarrow>
     pool_step s (Check i) (s\<lparr>workers := (workers s)[i := Waiting]\<rparr>)"
| check_stopped:
    "i < length (workers s) \<Longrightarrow> workers s ! i = LoopHead \<Longrightarrow> \<not> running s \<Longrightarrow>
     pool_step s (Check i) (s\<lparr>workers := (workers s)[i := Exited]\<rparr>)"
| take:
    "i < length (workers s) \<Longrightarrow> workers s ! i = Waiting \<Longrightarrow> is_top (task_queue s) t \<Longrightarrow>
     pool_step s (Take i t)
       (s\<lparr>task_queue := remove1 t (task_queue s), workers := (workers s)[i := Holding t]\<rparr>)"
| exit_idle:
    "i < length (workers s) \<Longrightarrow> workers s ! i = Waiting \<Longrightarrow> \<not> running s \<Longrightarrow>
     task_queue s = [] \<Longrightarrow>
     pool_step s (ExitIdle i) (s\<lparr>workers := (workers s)[i := Exited]\<rparr>)"
| start:
    "i < length (workers s) \<Longrightarrow> workers s ! i = Holding t \<Longrightarrow>
     pool_step s (Start i t) (s\<lparr>workers := (workers s)[i := Executing t]\<rparr>)"
| finish:
    "i < length (workers s) \<Longrightarrow> workers s ! i = Executing t \<Longrightarrow>
     pool_step s (Finish i t)
       (s\<lparr>completed := completed s @ [t], workers := (workers s)[i := LoopHead]\<rparr>)"
| shutdown:
    "pool_step s Shutdown (s\<lparr>running := False\<rparr>)"
| destroy:
    "shutdown_returned s \<Longrightarrow> pool_step s Destroy (destroy s)"

inductive pool_run :: "AdvancedThreadPool \<Rightarrow> pool_event list \<Rightarrow> AdvancedThreadPool \<Rightarrow> bool" where
  run_nil: "pool_run s [] s"
| run_step: "pool_step s ev s1 \<Longrightarrow> pool_run s1 evs s2 \<Longrightarrow> pool_run s (ev # evs) s2"

text \<open>The constructor starts \<open>min_threads\<close> workers; the queue is empty.\<close>

definition AdvancedThreadPool_new :: "nat \<Rightarrow> nat \<Rightarrow> AdvancedThreadPool" where
  "AdvancedThreadPool_new min_threads max_tasks_cfg =
     \<lparr>running = True, max_tasks = max_tasks_cfg, task_queue = [],
      workers = replicate min_threads LoopHead, completed = [], abandoned = []\<rparr>"

text \<open>A task of normal priority, for concrete runs.\<close>

definition job :: "nat \<Rightarrow> TaskItem" where
  "job n = \<lparr>priority = NORMAL, task = n\<rparr>"


section \<open>Properties\<close>

subsection \<open>Evaluating text and grid computations on numerals\<close>

lemma dec_digits_numeral:
  "dec_digits (numeral k) =
     (if (numeral k :: nat) < 10 then [''0123456789'' ! numeral k]
      else dec_digits (numeral k div 10) @ [''0123456789'' ! (numeral k mod 10)])"
  by (rule dec_digits.simps)

lemma dec_digits_0: "dec_digits 0 = ''0''"
  by (simp add: dec_digits.simps)

lemma dec_digits_1: "dec_digits 1 = ''1''"
  by (simp add: dec_digits.simps)

lemma dec_digits_Suc_0: "dec_digits (Suc 0) = ''1''"
  by (simp add: dec_digits.simps)

lemma replicate_numeral: "replicate (numeral k) x = x # replicate (pred_numeral k) x"
  by (simp add: numeral_eq_Suc)

lemmas text_eval =
  dec_digits_numeral dec_digits_0 dec_digits_1 dec_digits_Suc_0 replicate_numeral
  formatGridId_def setw_setfill_def int_to_string_def
  generateKey_def fixed7_def round_half_even_def Let_def

lemmas grid_eval =
  computeGridId_def lonToGridCol_def latToGridRow_def static_cast_int_def

lemmas stod_eval =
  parseKey_def stod_def strip_sign_def isspace_def isdigit_def digits_value_def
  digit_value_def stod_exponent_def

lemma beijing_constructed:
  "TerrainStorageEngine_new [] 116.0 39.0 117.5 41.0 0.01 500 = Constructed beijing"
  by (simp add: TerrainStorageEngine_new_def beijing_def int_representable_def
      static_cast_int_def INT_MAX_def)

subsection \<open>Construction\<close>

text \<open>
  C3, as stated, fails: the constructor accepts reversed bounds (longitude and latitude
  running from 4 down to 0) and a grid of 2048 by 2048 cells, more than the 1000 by 1000
  that the three-digit cell ids allow.
\<close>

theorem construction_unchecked_counterexample:
  "TerrainStorageEngine_new [] 4 4 0 0 1 10 =
     Constructed \<lparr>db_manager = [], min_lon = 4, min_lat = 4, max_lon = 0, max_lat = 0,
       grid_size = 1, grid_rows = -4, grid_cols = -4, id_width = 3,
       cache = \<lparr>capacity = 10, access_list = [], cache_map = []\<rparr>\<rparr> \<and>
   TerrainStorageEngine_new [] 0 0 2048 2048 1 10 =
     Constructed \<lparr>db_manager = [], min_lon = 0, min_lat = 0, max_lon = 2048, max_lat = 2048,
       grid_size = 1, grid_rows = 2048, grid_cols = 2048, id_width = 3,
       cache = \<lparr>capacity = 10, access_list = [], cache_map = []\<rparr>\<rparr>"
  by (simp add: TerrainStorageEngine_new_def int_representable_def static_cast_int_def
      INT_MAX_def GridLRUCache_new_def Let_def)

text \<open>
  C3, amended: construction throws exactly when the cell size is not positive. Neither the
  order of the bounds nor the number of rows and columns is checked: with a positive cell
  size an engine is constructed whenever the two derived counts fit an \<^verbatim>\<open>int\<close>.
\<close>

theorem construction_checks_only_grid_size:
  "(\<exists>ex. TerrainStorageEngine_new db mn_lon mn_lat mx_lon mx_lat g n = Thrown ex) = (g \<le> 0) \<and>
   (\<exists>e. TerrainStorageEngine_new db mn_lon mn_lat mx_lon mx_lat g n = Constructed e) =
     (0 < g \<and> int_representable (of_int \<lceil>(mx_lon - mn_lon) / g\<rceil>)
            \<and> int_representable (of_int \<lceil>(mx_lat - mn_lat) / g\<rceil>))"
  by (auto simp add: TerrainStorageEngine_new_def Let_def)

theorem construction_checks_only_grid_size_witness:
  "(\<exists>ex. TerrainStorageEngine_new [] 116.0 39.0 117.5 41.0 0 500 = Thrown ex) \<and>
   (\<exists>e. TerrainStorageEngine_new [] 116.0 39.0 117.5 41.0 0.01 500 = Constructed e)"
  using construction_checks_only_grid_size [of "[]" "116.0" "39.0" "117.5" "41.0" 0 500]
        construction_checks_only_grid_size [of "[]" "116.0" "39.0" "117.5" "41.0" "0.01" 500]
  by (simp add: int_representable_def static_cast_int_def INT_MAX_def)

subsection \<open>Grid index\<close>

text \<open>
  C4: the three listed examples hold on the engine of the test fixture. At the upper
  bounds, which \<open>isWithinBounds\<close> accepts, the column and row computed are \<open>grid_cols\<close> and
  \<open>grid_rows\<close> themselves, not indices below them: the coordinate is clamped, the index is
  not.
\<close>

theorem computeGridId_upper_bound_escapes_grid:
  "computeGridId beijing 116.405 39.905 = ''G_090_040'' \<and>
   computeGridId beijing 116.0 39.0 = ''G_000_000'' \<and>
   computeGridId beijing 117.499 40.999 = ''G_199_149'' \<and>
   isWithinBounds beijing 117.5 41.0 \<and>
   lonToGridCol beijing 117.5 = grid_cols beijing \<and>
   latToGridRow beijing 41.0 = grid_rows beijing \<and>
   computeGridId beijing 117.5 41.0 = ''G_200_150''"
  by (simp add: grid_eval text_eval beijing_def isWithinBounds_def)

subsection \<open>A point written is the point read\<close>

lemma isWithinBounds_cache [simp]:
  "isWithinBounds (e\<lparr>cache := c\<rparr>) = isWithinBounds e"
  "isWithinBounds (e\<lparr>db_manager := d\<rparr>) = isWithinBounds e"
  by (simp_all add: isWithinBounds_def fun_eq_iff)

lemma computeGridId_cache [simp]:
  "computeGridId (e\<lparr>cache := c\<rparr>) = computeGridId e"
  "computeGridId (e\<lparr>db_manager := d\<rparr>) = computeGridId e"
  by (simp_all add: computeGridId_def lonToGridCol_def latToGridRow_def fun_eq_iff)

lemma map_of_item_assign:
  "map_of (cache_map c) gid = Some item \<Longrightarrow>
   map_of (cache_map (item_assign c gid key v)) gid =
     Some (item\<lparr>data := AList.update key v (data item)\<rparr>)"
  by (simp add: item_assign_def update_conv')

text \<open>
  C1: when \<open>put\<close> of a value at a point returns normally, \<open>get\<close> at the same point on the
  engine it leaves returns true and yields that value, whatever the cache holds.
\<close>

theorem put_then_get:
  assumes "put e lon lat v = Inr e'"
  shows "fst (get e' lon lat) = Some v"
proof -
  from assms have inb: "isWithinBounds e lon lat"
    by (auto simp: put_def split: if_splits)
  define gid where "gid = computeGridId e lon lat"
  define key where "key = generateKey lon lat gid"
  show ?thesis
  proof (cases "map_of (cache_map (cache e)) gid")
    case None
    with assms inb have e': "e' = e\<lparr>cache := cache e, db_manager := LevelDBManager_put (db_manager e) key v\<rparr>"
      by (simp add: put_def GridLRUCache_get_def gid_def key_def Let_def)
    show ?thesis
      using None inb
      by (simp add: e' get_def GridLRUCache_get_def Let_def gid_def[symmetric] key_def[symmetric]
          LevelDBManager_get_def LevelDBManager_put_def update_conv')
  next
    case (Some item)
    with assms inb have e': "e' = e\<lparr>cache := item_assign ((cache e)\<lparr>access_list := gid # remove1 gid (access_list (cache e))\<rparr>) gid key v,
        db_manager := LevelDBManager_put (db_manager e) key v\<rparr>"
      by (simp add: put_def GridLRUCache_get_def gid_def key_def Let_def)
    show ?thesis
      using Some inb
      by (simp add: e' get_def GridLRUCache_get_def Let_def gid_def[symmetric] key_def[symmetric]
          map_of_item_assign update_conv')
  qed
qed


theorem put_then_get_witness:
  "put beijing 116.405285 39.904989 ''43.5'' =
     Inr (beijing\<lparr>db_manager := [(''G_090_040|116.4052850|39.9049890'', ''43.5'')]\<rparr>) \<and>
   fst (get (beijing\<lparr>db_manager := [(''G_090_040|116.4052850|39.9049890'', ''43.5'')]\<rparr>)
          116.405285 39.904989) = Some ''43.5''"
proof -
  have h: "put beijing 116.405285 39.904989 ''43.5'' =
     Inr (beijing\<lparr>db_manager := [(''G_090_040|116.4052850|39.9049890'', ''43.5'')]\<rparr>)"
    by (simp add: put_def isWithinBounds_def beijing_def grid_eval text_eval
        GridLRUCache_get_def GridLRUCache_new_def LevelDBManager_put_def)
  from put_then_get [OF h] h show ?thesis by simp
qed

subsection \<open>Keys lie inside the key range of their cell\<close>

lemma proper_prefix_less: "ys \<noteq> [] \<Longrightarrow> (xs :: string) < xs @ ys"
  by (induction xs) (auto simp: neq_Nil_conv)

lemma common_prefix_less: "(c :: char) < d \<Longrightarrow> xs @ c # ys < xs @ d # zs"
  by (induction xs) auto

lemma digit_char_mem: "k < 10 \<Longrightarrow> ''0123456789'' ! k \<in> set ''0123456789''"
  by (rule nth_mem) simp

lemma dec_digits_chars: "dec_digits n \<noteq> [] \<and> set (dec_digits n) \<subseteq> set ''0123456789''"
proof (induction n rule: dec_digits.induct)
  case (1 n)
  show ?case
  proof (cases "n < 10")
    case True
    then have eq: "dec_digits n = [''0123456789'' ! n]"
      by (subst dec_digits.simps) simp
    show ?thesis unfolding eq using digit_char_mem [OF True] by simp
  next
    case False
    then have eq: "dec_digits n = dec_digits (n div 10) @ [''0123456789'' ! (n mod 10)]"
      by (subst dec_digits.simps) simp
    have m: "''0123456789'' ! (n mod 10) \<in> set ''0123456789''"
      by (rule digit_char_mem) simp
    from 1 [OF False] m show ?thesis unfolding eq by simp
  qed
qed

lemma fixed7_head: "\<exists>c r. fixed7 x = c # r \<and> c < CHR ''~''"
proof (cases "x < 0")
  case True
  then show ?thesis by (simp add: fixed7_def Let_def)
next
  case False
  define n where "n = nat (round_half_even (\<bar>x\<bar> * 10 ^ 7))"
  obtain c r where cr: "dec_digits (n div 10 ^ 7) = c # r"
    using dec_digits_chars [of "n div 10 ^ 7"] by (auto simp: neq_Nil_conv)
  with dec_digits_chars [of "n div 10 ^ 7"] have "c \<in> set ''0123456789''" by auto
  then have "c < CHR ''~''" by auto
  with False cr show ?thesis by (simp add: fixed7_def Let_def n_def)
qed

lemma generateKey_in_cell_range:
  "gid @ ''|'' < generateKey lon lat gid \<and> generateKey lon lat gid < gid @ ''|~''"
proof -
  obtain c r where cr: "fixed7 lon = c # r" "c < CHR ''~''"
    using fixed7_head by blast
  have "gid @ ''|'' < (gid @ ''|'') @ (fixed7 lon @ ''|'' @ fixed7 lat)"
    by (rule proper_prefix_less) (simp add: cr)
  moreover have "(gid @ ''|'') @ c # (r @ ''|'' @ fixed7 lat) < (gid @ ''|'') @ CHR ''~'' # []"
    by (rule common_prefix_less) (rule cr)
  ultimately show ?thesis by (simp add: generateKey_def cr)
qed

text \<open>
  C5: for every point within the bounds, the key generated for it is strictly greater
  than the prefix of its cell (the cell id and a bar) and strictly less than the end
  sentinel of the cell (the cell id, a bar and a tilde), in byte-lexicographic order.
\<close>

theorem key_strictly_inside_cell_range:
  assumes "isWithinBounds e lon lat"
  shows "computeGridId e lon lat @ ''|'' < generateKey lon lat (computeGridId e lon lat) \<and>
         generateKey lon lat (computeGridId e lon lat) < computeGridId e lon lat @ ''|~''"
  by (rule generateKey_in_cell_range)

theorem key_strictly_inside_cell_range_witness:
  "isWithinBounds beijing 116.405285 39.904989 \<and>
   ''G_090_040|'' < ''G_090_040|116.4052850|39.9049890'' \<and>
   ''G_090_040|116.4052850|39.9049890'' < ''G_090_040|~''"
proof -
  have h: "isWithinBounds beijing 116.405285 39.904989"
    by (simp add: isWithinBounds_def beijing_def)
  have g: "computeGridId beijing 116.405285 39.904989 = ''G_090_040''"
    by (simp add: grid_eval text_eval beijing_def)
  have k: "generateKey 116.405285 39.904989 ''G_090_040'' = ''G_090_040|116.4052850|39.9049890''"
    by (simp add: text_eval)
  from key_strictly_inside_cell_range [OF h] show ?thesis
    unfolding g k using h by simp
qed


subsection \<open>Batches are all-or-nothing at the store\<close>

lemma batchPut_loop_db:
  "batchPut_loop e b pts = (r, e') \<Longrightarrow>
   db_manager e' = db_manager e \<and> isWithinBounds e' = isWithinBounds e \<and>
   computeGridId e' = computeGridId e"
proof (induction pts arbitrary: e b)
  case Nil
  then show ?case by simp
next
  case (Cons p rest)
  obtain lon lat v where p: "p = (lon, lat, v)" by (cases p) auto
  show ?case
  proof (cases "isWithinBounds e lon lat")
    case False
    with Cons.prems show ?thesis by (simp add: p)
  next
    case True
    with Cons.prems obtain c2 b2 where "batchPut_loop (e\<lparr>cache := c2\<rparr>) b2 rest = (r, e')"
      by (auto simp: p Let_def split: prod.splits)
    from Cons.IH [OF this] show ?thesis by simp
  qed
qed

lemma batchPut_loop_error:
  "\<exists>p\<in>set pts. \<not> isWithinBounds e (fst p) (fst (snd p)) \<Longrightarrow>
   \<exists>lon lat e'. batchPut_loop e b pts = (Inl (CoordinateOutOfRange lon lat), e')"
proof (induction pts arbitrary: e b)
  case Nil
  then show ?case by simp
next
  case (Cons p rest)
  obtain lon lat v where p: "p = (lon, lat, v)" by (cases p) auto
  show ?case
  proof (cases "isWithinBounds e lon lat")
    case False
    then show ?thesis by (simp add: p)
  next
    case True
    with Cons.prems have rest: "\<exists>q\<in>set rest. \<not> isWithinBounds (e\<lparr>cache := c\<rparr>) (fst q) (fst (snd q))" for c
      by (auto simp: p)
    show ?thesis
      using True Cons.IH [OF rest]
      by (simp add: p Let_def split: prod.splits)
  qed
qed

lemma batchPut_loop_success:
  "\<forall>p\<in>set pts. isWithinBounds e (fst p) (fst (snd p)) \<Longrightarrow>
   \<exists>e'. batchPut_loop e b pts =
     (Inr (b @ map (\<lambda>(lon, lat, v). BatchPut (generateKey lon lat (computeGridId e lon lat)) v) pts), e')"
proof (induction pts arbitrary: e b)
  case Nil
  then show ?case by simp
next
  case (Cons p rest)
  obtain lon lat v where p: "p = (lon, lat, v)" by (cases p) auto
  from Cons.prems have True: "isWithinBounds e lon lat" by (simp add: p)
  from Cons.prems have rest: "\<forall>q\<in>set rest. isWithinBounds (e\<lparr>cache := c\<rparr>) (fst q) (fst (snd q))" for c
    by auto
  obtain ci c1 where g: "GridLRUCache_get (cache e) (computeGridId e lon lat) = (ci, c1)"
    by force
  show ?case
    using True g
      Cons.IH [OF rest, of "case ci of None \<Rightarrow> c1
           | Some x \<Rightarrow> item_assign c1 (computeGridId e lon lat)
               (generateKey lon lat (computeGridId e lon lat)) v"
         "b @ [BatchPut (generateKey lon lat (computeGridId e lon lat)) v]"]
    by (simp add: p Let_def BatchWriter_put_def)
qed

text \<open>
  C6: if some point of the list is out of bounds, \<open>batchPut\<close> throws the out-of-range
  exception and the store is exactly as before the call; if every point is within bounds
  it returns normally and the store holds every key of the list. (The cache, in contrast,
  keeps the writes made before the exception: see \<open>batchPut_cache_best_effort\<close>.)
\<close>

theorem batchPut_all_or_nothing:
  "(if \<forall>p\<in>set pts. isWithinBounds e (fst p) (fst (snd p))
    then fst (batchPut e pts) = Inr () \<and>
         db_manager (snd (batchPut e pts)) =
           foldl (\<lambda>db (lon, lat, v).
                    LevelDBManager_put db (generateKey lon lat (computeGridId e lon lat)) v)
                 (db_manager e) pts
    else (\<exists>lon lat. fst (batchPut e pts) = Inl (CoordinateOutOfRange lon lat)) \<and>
         db_manager (snd (batchPut e pts)) = db_manager e)"
proof (cases "\<forall>p\<in>set pts. isWithinBounds e (fst p) (fst (snd p))")
  case True
  from batchPut_loop_success [OF True, of "[]"] obtain e' where
    run: "batchPut_loop e [] pts =
      (Inr (map (\<lambda>(lon, lat, v). BatchPut (generateKey lon lat (computeGridId e lon lat)) v) pts), e')"
    by auto
  from batchPut_loop_db [OF run] have db: "db_manager e' = db_manager e" by simp
  have fold: "foldl apply_batch_op d
      (map (\<lambda>(lon, lat, v). BatchPut (generateKey lon lat (computeGridId e lon lat)) v) pts) =
     foldl (\<lambda>db (lon, lat, v).
              LevelDBManager_put db (generateKey lon lat (computeGridId e lon lat)) v) d pts" for d
    by (induction pts arbitrary: d) (auto simp: LevelDBManager_put_def)
  show ?thesis
    using True by (simp add: batchPut_def run db BatchWriter_commit_def createBatch_def fold)
next
  case False
  then have ex: "\<exists>p\<in>set pts. \<not> isWithinBounds e (fst p) (fst (snd p))" by blast
  from batchPut_loop_error [OF ex, of "[]"] obtain lon lat e' where
    run: "batchPut_loop e [] pts = (Inl (CoordinateOutOfRange lon lat), e')"
    by blast
  from batchPut_loop_db [OF run] have db: "db_manager e' = db_manager e" by simp
  show ?thesis
    using False by (simp add: batchPut_def createBatch_def run db)
qed


theorem batchPut_all_or_nothing_witness:
  "((\<exists>lon lat. fst (batchPut beijing [(116.405285, 39.904989, ''43.5''), (115.9, 38.9, ''x'')]) =
        Inl (CoordinateOutOfRange lon lat)) \<and>
    db_manager (snd (batchPut beijing [(116.405285, 39.904989, ''43.5''), (115.9, 38.9, ''x'')])) = []) \<and>
   (fst (batchPut beijing [(116.405285, 39.904989, ''43.5'')]) = Inr () \<and>
    db_manager (snd (batchPut beijing [(116.405285, 39.904989, ''43.5'')])) =
      [(''G_090_040|116.4052850|39.9049890'', ''43.5'')])"
proof -
  have g: "computeGridId beijing 116.405285 39.904989 = ''G_090_040''"
    by (simp add: grid_eval text_eval beijing_def)
  have k: "generateKey 116.405285 39.904989 ''G_090_040'' = ''G_090_040|116.4052850|39.9049890''"
    by (simp add: text_eval)
  have d: "db_manager beijing = []"
    by (simp add: beijing_def)
  have b1: "isWithinBounds beijing 116.405285 39.904989"
    by (simp add: isWithinBounds_def beijing_def)
  have b2: "\<not> isWithinBounds beijing 115.9 38.9"
    by (simp add: isWithinBounds_def beijing_def)
  show ?thesis
    using g k d b1 b2
          batchPut_all_or_nothing [of "[(116.405285, 39.904989, ''43.5''), (115.9, 38.9, ''x'')]" beijing]
          batchPut_all_or_nothing [of "[(116.405285, 39.904989, ''43.5'')]" beijing]
    by (simp add: LevelDBManager_put_def)
qed

text \<open>
  The cache side is best effort: with the cell of the first point resident, a batch that
  fails on its second point leaves the first point in the cached cell and not in the store.
\<close>

lemma batchPut_cache_best_effort:
  "fst (batchPut (preloadGrid beijing ''G_090_040'')
          [(116.405285, 39.904989, ''43.5''), (115.9, 38.9, ''x'')]) =
     Inl (CoordinateOutOfRange 115.9 38.9) \<and>
   db_manager (snd (batchPut (preloadGrid beijing ''G_090_040'')
          [(116.405285, 39.904989, ''43.5''), (115.9, 38.9, ''x'')])) = [] \<and>
   map_of (cache_map (cache (snd (batchPut (preloadGrid beijing ''G_090_040'')
          [(116.405285, 39.904989, ''43.5''), (115.9, 38.9, ''x'')])))) ''G_090_040'' =
     Some \<lparr>grid_id = ''G_090_040'',
           data = [(''G_090_040|116.4052850|39.9049890'', ''43.5'')]\<rparr>"
proof -
  have p: "preloadGrid beijing ''G_090_040'' =
      beijing\<lparr>cache := \<lparr>capacity = 500, access_list = [''G_090_040''],
        cache_map = [(''G_090_040'', \<lparr>grid_id = ''G_090_040'', data = []\<rparr>)]\<rparr>\<rparr>"
    by (simp add: preloadGrid_def loadGridToCache_def LevelDBManager_rangeQuery_def beijing_def
        GridLRUCache_put_def GridLRUCache_new_def Let_def)
  have g: "computeGridId (beijing\<lparr>cache := c\<rparr>) 116.405285 39.904989 = ''G_090_040''" for c
    by (simp add: grid_eval text_eval beijing_def)
  have k: "generateKey 116.405285 39.904989 ''G_090_040'' = ''G_090_040|116.4052850|39.9049890''"
    by (simp add: text_eval)
  have b1: "isWithinBounds beijing 116.405285 39.904989"
    by (simp add: isWithinBounds_def beijing_def)
  have b2: "\<not> isWithinBounds beijing 115.9 38.9"
    by (simp add: isWithinBounds_def beijing_def)
  show ?thesis
    using g k b1 b2
    by (simp add: p batchPut_def createBatch_def GridLRUCache_get_def
        item_assign_def BatchWriter_put_def Let_def) (simp add: beijing_def)
qed

subsection \<open>The cache keeps the most recently used cells\<close>

lemma remdups_snoc: "remdups (xs @ [x]) = removeAll x (remdups xs) @ [x]"
  by (induction xs) auto

lemma take_removeAll_take:
  "distinct L \<Longrightarrow> take n (removeAll x (take (Suc n) L)) = take n (removeAll x L)"
proof (induction L arbitrary: n)
  case Nil
  then show ?case by simp
next
  case (Cons y L)
  show ?case
  proof (cases n)
    case 0
    then show ?thesis by simp
  next
    case (Suc m)
    show ?thesis
    proof (cases "y = x")
      case True
      with Cons.prems have "x \<notin> set L" by simp
      then have "removeAll x (take (Suc m) L) = take (Suc m) L" "removeAll x L = L"
        by (metis in_set_takeD removeAll_id)+
      with True Suc show ?thesis by simp
    next
      case False
      from Cons.prems have "distinct L" by simp
      from Cons.IH [OF this, of m] False Suc show ?thesis by simp
    qed
  qed
qed

lemma lru_touch_take:
  assumes "distinct L" "0 < cap"
  shows "take cap (gid # removeAll gid (take cap L)) = take cap (gid # removeAll gid L)"
proof -
  from assms(2) obtain n where n: "cap = Suc n" by (cases cap) auto
  show ?thesis unfolding n using take_removeAll_take [OF assms(1), of n gid] by simp
qed

lemma lru_inv_lengths:
  assumes "lru_inv c"
  shows "length (cache_map c) = length (access_list c)"
proof -
  from assms have a: "card (set (access_list c)) = length (access_list c)"
    by (metis lru_inv_def distinct_card)
  from assms have b: "card (set (map fst (cache_map c))) = length (map fst (cache_map c))"
    by (metis lru_inv_def distinct_card)
  from assms have "set (access_list c) = set (map fst (cache_map c))"
    by (simp add: lru_inv_def)
  with a b show ?thesis by simp
qed

lemma lru_inv_resident:
  "lru_inv c \<Longrightarrow> (map_of (cache_map c) gid \<noteq> None) = (gid \<in> set (access_list c))"
  by (simp add: lru_inv_def map_of_eq_None_iff)

lemma GridLRUCache_new_inv: "lru_inv (GridLRUCache_new n)"
  by (simp add: lru_inv_def GridLRUCache_new_def)

lemma GridLRUCache_get_miss:
  "map_of (cache_map c) gid = None \<Longrightarrow> GridLRUCache_get c gid = (None, c)"
  by (simp add: GridLRUCache_get_def)

lemma GridLRUCache_get_hit:
  assumes "lru_inv c" "map_of (cache_map c) gid = Some item"
  shows "GridLRUCache_get c gid =
           (Some item, c\<lparr>access_list := take (capacity c) (gid # removeAll gid (access_list c))\<rparr>)"
proof -
  from assms have mem: "gid \<in> set (access_list c)"
    using lru_inv_resident [OF assms(1), of gid] by simp
  from assms(1) have d: "distinct (access_list c)" by (simp add: lru_inv_def)
  from d have r: "remove1 gid (access_list c) = removeAll gid (access_list c)"
    by (simp add: distinct_remove1_removeAll)
  from mem have "length (remove1 gid (access_list c)) = length (access_list c) - 1"
    by (simp add: length_remove1)
  moreover from mem have "0 < length (access_list c)" by (cases "access_list c") auto
  moreover from assms(1) have "length (access_list c) \<le> capacity c" by (simp add: lru_inv_def)
  ultimately have "length (gid # remove1 gid (access_list c)) \<le> capacity c" by simp
  then have "take (capacity c) (gid # remove1 gid (access_list c)) = gid # remove1 gid (access_list c)"
    by (rule take_all)
  then show ?thesis using assms(2) by (simp add: GridLRUCache_get_def r)
qed

lemma lru_inv_touch:
  assumes "lru_inv c" "gid \<in> set (access_list c)"
  shows "lru_inv (c\<lparr>access_list := take (capacity c) (gid # removeAll gid (access_list c))\<rparr>)"
proof -
  from assms(1) have d: "distinct (access_list c)" and le: "length (access_list c) \<le> capacity c"
    by (simp_all add: lru_inv_def)
  have "length (removeAll gid (access_list c)) = length (access_list c) - 1"
    using assms(2) d by (simp add: distinct_remove1_removeAll [symmetric] length_remove1)
  moreover from assms(2) have "0 < length (access_list c)" by (cases "access_list c") auto
  ultimately have len: "length (gid # removeAll gid (access_list c)) \<le> capacity c"
    using le by simp
  then have t: "take (capacity c) (gid # removeAll gid (access_list c)) = gid # removeAll gid (access_list c)"
    by (rule take_all)
  have s: "set (gid # removeAll gid (access_list c)) = set (access_list c)"
    using assms(2) by auto
  have d': "distinct (gid # removeAll gid (access_list c))"
    using d by (simp add: distinct_removeAll)
  from assms(1) have rest: "0 < capacity c" "distinct (map fst (cache_map c))"
    "set (access_list c) = fst ` set (cache_map c)"
    by (simp_all add: lru_inv_def)
  show ?thesis
    unfolding t lru_inv_def using len s d' rest by simp
qed

lemma set_butlast_distinct:
  "distinct L \<Longrightarrow> L \<noteq> [] \<Longrightarrow> set (butlast L) = set L - {last L}"
proof (induction L rule: rev_induct)
  case Nil
  then show ?case by simp
next
  case (snoc x xs)
  then show ?case by auto
qed

lemma GridLRUCache_put_effect:
  assumes inv: "lru_inv c"
  shows "access_list (GridLRUCache_put c gid item) =
           take (capacity c) (gid # removeAll gid (access_list c))"
    and "capacity (GridLRUCache_put c gid item) = capacity c"
    and "lru_inv (GridLRUCache_put c gid item)"
    and "map_of (cache_map (GridLRUCache_put c gid item)) gid = Some item"
    and "g \<noteq> gid \<Longrightarrow> g \<in> set (access_list (GridLRUCache_put c gid item)) \<Longrightarrow>
         map_of (cache_map (GridLRUCache_put c gid item)) g = map_of (cache_map c) g"
proof -
  let ?L = "access_list c"
  let ?m = "cache_map c"
  from inv have cap: "0 < capacity c" and d: "distinct ?L" and dm: "distinct (map fst ?m)"
    and s: "set ?L = fst ` set ?m" and le: "length ?L \<le> capacity c"
    by (simp_all add: lru_inv_def)
  note len = lru_inv_lengths [OF inv]
  note res = lru_inv_resident [OF inv, of gid]
  consider (hit) "gid \<in> set ?L"
    | (full) "gid \<notin> set ?L" "capacity c \<le> length ?L"
    | (room) "gid \<notin> set ?L" "length ?L < capacity c"
    by linarith
  then have all: "access_list (GridLRUCache_put c gid item) =
           take (capacity c) (gid # removeAll gid (access_list c)) \<and>
     capacity (GridLRUCache_put c gid item) = capacity c \<and>
     lru_inv (GridLRUCache_put c gid item) \<and>
     map_of (cache_map (GridLRUCache_put c gid item)) gid = Some item \<and>
     (\<forall>g. g \<noteq> gid \<and> g \<in> set (access_list (GridLRUCache_put c gid item)) \<longrightarrow>
         map_of (cache_map (GridLRUCache_put c gid item)) g = map_of (cache_map c) g)"
  proof cases
    case hit
    then have r: "map_of ?m gid \<noteq> None" using res by simp
    have put: "GridLRUCache_put c gid item =
        c\<lparr>access_list := gid # remove1 gid ?L, cache_map := AList.update gid item ?m\<rparr>"
      using r by (simp add: GridLRUCache_put_def Let_def)
    have rm: "remove1 gid ?L = removeAll gid ?L"
      using d by (simp add: distinct_remove1_removeAll)
    have "length (removeAll gid ?L) = length ?L - 1"
      using hit d by (simp add: rm [symmetric] length_remove1)
    moreover from hit have "0 < length ?L" by (cases ?L) auto
    ultimately have "length (gid # removeAll gid ?L) \<le> capacity c" using le by simp
    then have t: "take (capacity c) (gid # removeAll gid ?L) = gid # removeAll gid ?L"
      by (rule take_all)
    have keys: "fst ` set (AList.update gid item ?m) = set ?L"
      using hit s by (auto simp: dom_update)
    have "lru_inv (c\<lparr>access_list := gid # removeAll gid ?L, cache_map := AList.update gid item ?m\<rparr>)"
      unfolding lru_inv_def using cap d hit keys \<open>length (gid # removeAll gid ?L) \<le> capacity c\<close>
        distinct_update [OF dm, of gid item]
      by (auto simp: distinct_removeAll)
    then show ?thesis
      by (simp add: put rm t update_conv')
  next
    case full
    then have r: "map_of ?m gid = None" using res by simp
    from full le have eq: "length ?L = capacity c" by simp
    with cap have ne: "?L \<noteq> []" by auto
    then obtain xs x where xs: "?L = xs @ [x]"
      by (metis rev_exhaust)
    have rv: "rev ?L = last ?L # rev (butlast ?L)"
      unfolding xs by simp
    have put: "GridLRUCache_put c gid item =
        c\<lparr>access_list := gid # butlast ?L,
          cache_map := AList.update gid item (AList.delete (last ?L) ?m)\<rparr>"
      using r full(2) by (simp add: GridLRUCache_put_def Let_def len rv)
    have t: "take (capacity c) (gid # removeAll gid ?L) = gid # butlast ?L"
    proof -
      from full(1) have "removeAll gid ?L = ?L" by simp
      moreover from cap obtain n where n: "capacity c = Suc n" by (cases "capacity c") auto
      moreover have "butlast ?L = take n ?L"
        using eq n by (simp add: butlast_conv_take)
      ultimately show ?thesis by simp
    qed
    have sb: "set (butlast ?L) = set ?L - {last ?L}"
      by (rule set_butlast_distinct [OF d ne])
    have "set (map fst (AList.delete (last ?L) ?m)) = set (map fst ?m) - {last ?L}"
      by (simp add: delete_keys)
    then have "fst ` set (AList.delete (last ?L) ?m) = set ?L - {last ?L}"
      using s by simp
    then have keys: "fst ` set (AList.update gid item (AList.delete (last ?L) ?m)) =
        set (gid # butlast ?L)"
      using sb by (simp add: dom_update)
    have gb: "gid \<notin> set (butlast ?L)"
      using full(1) by (auto dest: in_set_butlastD)
    have inv': "lru_inv (c\<lparr>access_list := gid # butlast ?L,
          cache_map := AList.update gid item (AList.delete (last ?L) ?m)\<rparr>)"
      unfolding lru_inv_def using cap d gb keys eq ne
        distinct_update [OF distinct_delete [OF dm, of "last ?L"], of gid item]
      by (simp add: distinct_butlast)
    have others: "map_of (AList.update gid item (AList.delete (last ?L) ?m)) g = map_of ?m g"
      if "g \<noteq> gid" "g \<in> set (gid # butlast ?L)" for g
    proof -
      from that sb have "g \<noteq> last ?L" by auto
      with that(1) show ?thesis by (simp add: update_conv' delete_conv')
    qed
    show ?thesis
      using inv' others by (auto simp add: put t update_conv')
  next
    case room
    then have r: "map_of ?m gid = None" using res by simp
    have put: "GridLRUCache_put c gid item =
        c\<lparr>access_list := gid # ?L, cache_map := AList.update gid item ?m\<rparr>"
      using r room(2) by (simp add: GridLRUCache_put_def Let_def len)
    have t: "take (capacity c) (gid # removeAll gid ?L) = gid # ?L"
      using room by simp
    have keys: "fst ` set (AList.update gid item ?m) = set (gid # ?L)"
      using s by (auto simp: dom_update)
    have "lru_inv (c\<lparr>access_list := gid # ?L, cache_map := AList.update gid item ?m\<rparr>)"
      unfolding lru_inv_def using cap d room keys distinct_update [OF dm, of gid item]
      by simp
    then show ?thesis
      by (simp add: put t update_conv')
  qed
  from all show "access_list (GridLRUCache_put c gid item) =
           take (capacity c) (gid # removeAll gid (access_list c))"
    and "capacity (GridLRUCache_put c gid item) = capacity c"
    and "lru_inv (GridLRUCache_put c gid item)"
    and "map_of (cache_map (GridLRUCache_put c gid item)) gid = Some item"
    by blast+
  from all show "g \<noteq> gid \<Longrightarrow> g \<in> set (access_list (GridLRUCache_put c gid item)) \<Longrightarrow>
         map_of (cache_map (GridLRUCache_put c gid item)) g = map_of (cache_map c) g"
    by blast
qed

lemma rev_remdups_snoc:
  "rev (remdups (xs @ [x])) = x # removeAll x (rev (remdups xs))"
  by (simp add: remdups_snoc removeAll_filter_not_eq rev_filter)

lemma lru_touch_history:
  assumes "0 < cap" "L = take cap (rev (remdups hist))"
  shows "take cap (gid # removeAll gid L) = take cap (rev (remdups (hist @ [gid])))"
  unfolding assms(2) rev_remdups_snoc
  by (rule lru_touch_take) (simp_all add: assms(1))

lemma run_cache_ops_history:
  assumes "lru_inv c" "access_list c = take (capacity c) (rev (remdups hist))"
    and "run_cache_ops c ops = (ts, c')"
  shows "access_list c' = take (capacity c') (rev (remdups (hist @ ts))) \<and>
         lru_inv c' \<and> capacity c' = capacity c"
  using assms
proof (induction ops arbitrary: c hist ts)
  case Nil
  then show ?case by simp
next
  case (Cons op ops)
  from Cons.prems(1) have cap: "0 < capacity c" by (simp add: lru_inv_def)
  show ?case
  proof (cases op)
    case (CacheGet gid)
    show ?thesis
    proof (cases "map_of (cache_map c) gid")
      case None
      with Cons.prems(3) CacheGet have "run_cache_ops c ops = (ts, c')"
        by (simp add: GridLRUCache_get_miss)
      from Cons.IH [OF Cons.prems(1,2) this] show ?thesis .
    next
      case (Some item)
      let ?c1 = "c\<lparr>access_list := take (capacity c) (gid # removeAll gid (access_list c))\<rparr>"
      from Some have mem: "gid \<in> set (access_list c)"
        using lru_inv_resident [OF Cons.prems(1), of gid] by simp
      obtain ts' where run: "run_cache_ops ?c1 ops = (ts', c')" and ts: "ts = gid # ts'"
        using Cons.prems(3) CacheGet GridLRUCache_get_hit [OF Cons.prems(1) Some]
        by (auto split: prod.splits)
      have inv1: "lru_inv ?c1" by (rule lru_inv_touch [OF Cons.prems(1) mem])
      have acc1: "access_list ?c1 = take (capacity ?c1) (rev (remdups (hist @ [gid])))"
        using lru_touch_history [OF cap Cons.prems(2), of gid] by simp
      from Cons.IH [OF inv1 acc1 run] show ?thesis by (simp add: ts)
    qed
  next
    case (CachePut gid item)
    let ?c1 = "GridLRUCache_put c gid item"
    obtain ts' where run: "run_cache_ops ?c1 ops = (ts', c')" and ts: "ts = gid # ts'"
      using Cons.prems(3) CachePut by (auto split: prod.splits)
    note eff = GridLRUCache_put_effect [OF Cons.prems(1), where gid = gid and item = item]
    have acc1: "access_list ?c1 = take (capacity ?c1) (rev (remdups (hist @ [gid])))"
      using lru_touch_history [OF cap Cons.prems(2), of gid] eff(1,2) by simp
    from Cons.IH [OF eff(3) acc1 run] eff(2) show ?thesis by (simp add: ts)
  qed
qed

text \<open>
  C7: run any sequence of \<open>get\<close> and \<open>put\<close> accesses on a new cache. Afterwards the access
  list is the ids touched, most recently touched first and each once, cut at the capacity;
  the resident ids are exactly those. (A \<open>get\<close> promotes the cell it finds; a \<open>put\<close> inserts or
  replaces and promotes, and drops the last id of the list exactly when a new id enters a
  full cache: \<open>GridLRUCache_get_hit\<close>, \<open>GridLRUCache_put_effect\<close>.)
\<close>

theorem lru_resident_most_recently_touched:
  assumes "run_cache_ops (GridLRUCache_new n) ops = (touched, c)"
  shows "access_list c = take (capacity c) (rev (remdups touched)) \<and>
         fst ` set (cache_map c) = set (take (capacity c) (rev (remdups touched))) \<and>
         capacity c = (if 0 < n then n else 1000)"
proof -
  have a: "access_list (GridLRUCache_new n) = take (capacity (GridLRUCache_new n)) (rev (remdups []))"
    by (simp add: GridLRUCache_new_def)
  from run_cache_ops_history [OF GridLRUCache_new_inv a assms]
  have "access_list c = take (capacity c) (rev (remdups touched))" "lru_inv c"
    "capacity c = capacity (GridLRUCache_new n)"
    by simp_all
  then show ?thesis by (simp add: lru_inv_def GridLRUCache_new_def)
qed


theorem lru_resident_most_recently_touched_witness:
  "run_cache_ops (GridLRUCache_new 2)
     [CachePut ''a'' \<lparr>grid_id = ''a'', data = []\<rparr>,
      CachePut ''b'' \<lparr>grid_id = ''b'', data = []\<rparr>,
      CacheGet ''c'',
      CacheGet ''a'',
      CachePut ''d'' \<lparr>grid_id = ''d'', data = []\<rparr>] =
     ([''a'', ''b'', ''a'', ''d''],
      \<lparr>capacity = 2, access_list = [''d'', ''a''],
       cache_map = [(''a'', \<lparr>grid_id = ''a'', data = []\<rparr>), (''d'', \<lparr>grid_id = ''d'', data = []\<rparr>)]\<rparr>) \<and>
   [''d'', ''a''] = take 2 (rev (remdups [''a'', ''b'', ''a'', ''d'']))"
proof -
  have run: "run_cache_ops (GridLRUCache_new 2)
     [CachePut ''a'' \<lparr>grid_id = ''a'', data = []\<rparr>,
      CachePut ''b'' \<lparr>grid_id = ''b'', data = []\<rparr>,
      CacheGet ''c'',
      CacheGet ''a'',
      CachePut ''d'' \<lparr>grid_id = ''d'', data = []\<rparr>] =
     ([''a'', ''b'', ''a'', ''d''],
      \<lparr>capacity = 2, access_list = [''d'', ''a''],
       cache_map = [(''a'', \<lparr>grid_id = ''a'', data = []\<rparr>), (''d'', \<lparr>grid_id = ''d'', data = []\<rparr>)]\<rparr>)"
    by (simp add: GridLRUCache_new_def GridLRUCache_put_def GridLRUCache_get_def Let_def)
  from lru_resident_most_recently_touched [OF run] run show ?thesis by simp
qed


subsection \<open>Range queries go through the cache\<close>

lemma formatting_cache [simp]:
  "lonToGridCol (e\<lparr>cache := c\<rparr>) = lonToGridCol e"
  "latToGridRow (e\<lparr>cache := c\<rparr>) = latToGridRow e"
  by (simp_all add: lonToGridCol_def latToGridRow_def fun_eq_iff)

lemma covered_cells_cache [simp]:
  "covered_cells (e\<lparr>cache := c\<rparr>) = covered_cells e"
  by (simp add: covered_cells_def fun_eq_iff)

lemma loadGridToCache_never_null: "fst (loadGridToCache e gid) \<noteq> None"
  by (simp add: loadGridToCache_def Let_def)

lemma loadGridToCache_effect:
  assumes "lru_inv (cache e)"
  shows "access_list (cache (snd (loadGridToCache e gid))) =
           take (capacity (cache e)) (gid # removeAll gid (access_list (cache e)))"
    and "lru_inv (cache (snd (loadGridToCache e gid)))"
    and "capacity (cache (snd (loadGridToCache e gid))) = capacity (cache e)"
    and "\<exists>c. snd (loadGridToCache e gid) = e\<lparr>cache := c\<rparr>"
  using GridLRUCache_put_effect(1-3) [OF assms]
  by (simp_all add: loadGridToCache_def Let_def) blast

text \<open>What one visit of a cell does to the cache, and which branch it takes.\<close>

lemma processGrid_effect:
  assumes inv: "lru_inv (cache e)"
    and run: "processGrid e gid a b c d = ((calls, path), e')"
  shows "path = FromCache"
    and "access_list (cache e') =
           take (capacity (cache e)) (gid # removeAll gid (access_list (cache e)))"
    and "lru_inv (cache e')"
    and "capacity (cache e') = capacity (cache e)"
    and "\<exists>c. e' = e\<lparr>cache := c\<rparr>"
proof -
  have "path = FromCache \<and>
      access_list (cache e') =
           take (capacity (cache e)) (gid # removeAll gid (access_list (cache e))) \<and>
      lru_inv (cache e') \<and> capacity (cache e') = capacity (cache e) \<and>
      (\<exists>c. e' = e\<lparr>cache := c\<rparr>)"
  proof (cases "map_of (cache_map (cache e)) gid")
    case None
    then have g: "GridLRUCache_get (cache e) gid = (None, cache e)"
      by (rule GridLRUCache_get_miss)
    obtain item e2 where l: "loadGridToCache e gid = (Some item, e2)"
      by (simp add: loadGridToCache_def Let_def)
    from run have "e' = e2" "path = FromCache"
      by (simp_all add: processGrid_def g l)
    with loadGridToCache_effect [OF inv, of gid] l show ?thesis by simp
  next
    case (Some item)
    note g = GridLRUCache_get_hit [OF inv Some]
    from Some have mem: "gid \<in> set (access_list (cache e))"
      using lru_inv_resident [OF inv, of gid] by simp
    from run have "e' = e\<lparr>cache := (cache e)\<lparr>access_list :=
        take (capacity (cache e)) (gid # removeAll gid (access_list (cache e)))\<rparr>\<rparr>"
      "path = FromCache"
      by (simp_all add: processGrid_def g)
    with lru_inv_touch [OF inv mem] show ?thesis by auto
  qed
  then show "path = FromCache"
    and "access_list (cache e') =
           take (capacity (cache e)) (gid # removeAll gid (access_list (cache e)))"
    and "lru_inv (cache e')"
    and "capacity (cache e') = capacity (cache e)"
    and "\<exists>c. e' = e\<lparr>cache := c\<rparr>"
    by blast+
qed

lemma rangeQuery_loop_cache:
  assumes "lru_inv (cache e)"
    and "access_list (cache e) = take (capacity (cache e)) (rev (remdups hist))"
    and "rangeQuery_loop e gids a b c d = ((calls, paths), e')"
  shows "paths = replicate (length gids) FromCache \<and>
         access_list (cache e') = take (capacity (cache e)) (rev (remdups (hist @ gids))) \<and>
         lru_inv (cache e') \<and> capacity (cache e') = capacity (cache e)"
  using assms
proof (induction gids arbitrary: e hist calls paths)
  case Nil
  then show ?case by simp
next
  case (Cons gid gids)
  obtain calls1 path e1 where p: "processGrid e gid a b c d = ((calls1, path), e1)"
    by (metis surj_pair)
  obtain calls2 paths2 where l: "rangeQuery_loop e1 gids a b c d = ((calls2, paths2), e')"
    and ps: "paths = path # paths2"
    using Cons.prems(3) p by (auto split: prod.splits)
  note eff = processGrid_effect [OF Cons.prems(1) p]
  from Cons.prems(1) have cap: "0 < capacity (cache e)" by (simp add: lru_inv_def)
  have acc1: "access_list (cache e1) = take (capacity (cache e1)) (rev (remdups (hist @ [gid])))"
    using lru_touch_history [OF cap Cons.prems(2), of gid] eff(2,4) by simp
  from Cons.IH [OF eff(3) acc1 l] eff(1,4) show ?case by (simp add: ps)
qed

subsection \<open>The store's range scan\<close>

lemma dropWhile_sorted_filter:
  "sorted (map f xs) \<Longrightarrow> dropWhile (\<lambda>x. f x < a) xs = filter (\<lambda>x. \<not> f x < a) xs"
proof (induction xs)
  case Nil
  then show ?case by simp
next
  case (Cons x xs)
  show ?case
  proof (cases "f x < a")
    case True
    with Cons show ?thesis by simp
  next
    case False
    with Cons.prems have "\<forall>y\<in>set xs. \<not> f y < a" by (auto simp: not_less intro: order_trans)
    then have "filter (\<lambda>x. \<not> f x < a) xs = xs" by (simp add: filter_id_conv)
    with False show ?thesis by simp
  qed
qed

lemma takeWhile_sorted_filter:
  assumes "sorted (map f xs)" "\<And>x y. P y \<Longrightarrow> f x \<le> f y \<Longrightarrow> P x"
  shows "takeWhile P xs = filter P xs"
  using assms(1)
proof (induction xs)
  case Nil
  then show ?case by simp
next
  case (Cons x xs)
  show ?case
  proof (cases "P x")
    case True
    with Cons show ?thesis by simp
  next
    case False
    with Cons.prems assms(2) have "\<forall>y\<in>set xs. \<not> P y" by auto
    then have "filter P xs = []" by (simp add: filter_empty_conv)
    with False show ?thesis by simp
  qed
qed

lemma LevelDBManager_rangeQuery_filter:
  "LevelDBManager_rangeQuery db start_key end_key =
     filter (\<lambda>(k, v). start_key \<le> k \<and> (end_key = [] \<or> k < end_key)) (sort_key fst db)"
proof -
  let ?xs = "sort_key fst db"
  have s: "sorted (map fst ?xs)" by simp
  have d: "dropWhile (\<lambda>(k, v). k < start_key) ?xs = filter (\<lambda>(k, v). \<not> k < start_key) ?xs"
    using dropWhile_sorted_filter [OF s, of start_key] by (simp add: case_prod_unfold)
  have s2: "sorted (map fst (filter (\<lambda>(k, v). \<not> k < start_key) ?xs))"
    using s by (simp add: sorted_map sorted_wrt_filter)
  have t: "takeWhile (\<lambda>(k, v). \<not> (end_key \<noteq> [] \<and> end_key \<le> k)) (filter (\<lambda>(k, v). \<not> k < start_key) ?xs) =
      filter (\<lambda>(k, v). \<not> (end_key \<noteq> [] \<and> end_key \<le> k)) (filter (\<lambda>(k, v). \<not> k < start_key) ?xs)"
    by (rule takeWhile_sorted_filter [OF s2]) (auto simp: case_prod_unfold)
  show ?thesis
    unfolding LevelDBManager_rangeQuery_def d t
    by (auto simp: case_prod_unfold not_less not_le intro!: filter_cong)
qed

lemma set_LevelDBManager_rangeQuery:
  "set (LevelDBManager_rangeQuery db start_key end_key) =
     {(k, v). (k, v) \<in> set db \<and> start_key \<le> k \<and> (end_key = [] \<or> k < end_key)}"
  by (auto simp: LevelDBManager_rangeQuery_filter)

lemma set_cell_entries:
  "set (cell_entries db gid) = {(k, v). (k, v) \<in> set db \<and> gid @ ''|'' \<le> k \<and> k < gid @ ''|~''}"
  by (auto simp: cell_entries_def set_LevelDBManager_rangeQuery)

lemma distinct_cell_entries:
  assumes "distinct (map fst db)"
  shows "distinct (map fst (cell_entries db gid))"
proof -
  from assms have "distinct (map fst (sort_key fst db))"
    by (simp add: distinct_map)
  then show ?thesis
    unfolding cell_entries_def LevelDBManager_rangeQuery_filter by (rule distinct_map_filter)
qed

subsection \<open>Loading a cell copies its entries\<close>

lemma update_fresh: "k \<notin> fst ` set d \<Longrightarrow> AList.update k v d = d @ [(k, v)]"
  by (induction d) auto

lemma foldl_update_fresh:
  "distinct (map fst (d @ kvs)) \<Longrightarrow> foldl (\<lambda>d (k, v). AList.update k v d) d kvs = d @ kvs"
proof (induction kvs arbitrary: d)
  case Nil
  then show ?case by simp
next
  case (Cons kv kvs)
  obtain k v where kv: "kv = (k, v)" by (cases kv)
  from Cons.prems have fresh: "k \<notin> fst ` set d" by (auto simp: kv)
  from Cons.prems have "distinct (map fst ((d @ [(k, v)]) @ kvs))" by (simp add: kv)
  from Cons.IH [OF this] show ?case by (simp add: kv update_fresh [OF fresh])
qed

lemma loadGridToCache_item:
  assumes "distinct (map fst (db_manager e))"
  shows "fst (loadGridToCache e gid) =
           Some \<lparr>grid_id = gid, data = cell_entries (db_manager e) gid\<rparr>"
  using foldl_update_fresh [of "[]" "cell_entries (db_manager e) gid"]
    distinct_cell_entries [OF assms, of gid]
  by (simp add: loadGridToCache_def Let_def cell_entries_def)

text \<open>What a visit of a cell, and a whole query, leave in the cache.\<close>

lemma processGrid_items:
  assumes inv: "lru_inv (cache e)" and dd: "distinct (map fst (db_manager e))"
    and run: "processGrid e gid a b c d = (r, e')"
    and m: "map_of (cache_map (cache e')) g = Some item"
  shows "map_of (cache_map (cache e)) g = Some item \<or>
         (g = gid \<and> item = \<lparr>grid_id = gid, data = cell_entries (db_manager e) gid\<rparr>)"
proof (cases "map_of (cache_map (cache e)) gid")
  case None
  then have g: "GridLRUCache_get (cache e) gid = (None, cache e)"
    by (rule GridLRUCache_get_miss)
  let ?item = "\<lparr>grid_id = gid, data = cell_entries (db_manager e) gid\<rparr>"
  from loadGridToCache_item [OF dd, of gid]
  have l: "loadGridToCache e gid = (Some ?item, e\<lparr>cache := GridLRUCache_put (cache e) gid ?item\<rparr>)"
    by (simp add: loadGridToCache_def Let_def cell_entries_def)
  from run have e2: "e' = e\<lparr>cache := GridLRUCache_put (cache e) gid ?item\<rparr>"
    by (auto simp add: processGrid_def g l)
  note put = GridLRUCache_put_effect [OF inv, where gid = gid and item = ?item]
  show ?thesis
  proof (cases "g = gid")
    case True
    with m put(4) have "item = ?item" by (simp add: e2)
    with True show ?thesis by simp
  next
    case False
    from m have "g \<in> set (access_list (GridLRUCache_put (cache e) gid ?item))"
      using lru_inv_resident [OF put(3), of g] by (simp add: e2)
    from put(5) [OF False this] m show ?thesis by (simp add: e2)
  qed
next
  case (Some it)
  note g = GridLRUCache_get_hit [OF inv Some]
  from run have "cache_map (cache e') = cache_map (cache e)"
    by (auto simp add: processGrid_def g)
  with m show ?thesis by simp
qed

lemma rangeQuery_loop_items:
  assumes "lru_inv (cache e)" "distinct (map fst (db_manager e))"
    and "rangeQuery_loop e gids a b c d = (r, e')"
    and "map_of (cache_map (cache e')) g = Some item"
  shows "map_of (cache_map (cache e)) g = Some item \<or>
         (g \<in> set gids \<and> item = \<lparr>grid_id = g, data = cell_entries (db_manager e) g\<rparr>)"
  using assms
proof (induction gids arbitrary: e r)
  case Nil
  then show ?case by simp
next
  case (Cons gid gids)
  obtain calls1 path e1 where p: "processGrid e gid a b c d = ((calls1, path), e1)"
    by (metis surj_pair)
  obtain r2 where l: "rangeQuery_loop e1 gids a b c d = (r2, e')"
    using Cons.prems(3) p by (auto split: prod.splits)
  note eff = processGrid_effect [OF Cons.prems(1) p]
  from eff(5) obtain c1 where e1: "e1 = e\<lparr>cache := c1\<rparr>" by blast
  then have db: "db_manager e1 = db_manager e" by simp
  from Cons.prems(2) db have dd1: "distinct (map fst (db_manager e1))" by simp
  from Cons.IH [OF eff(3) dd1 l Cons.prems(4)]
  show ?case
  proof
    assume "map_of (cache_map (cache e1)) g = Some item"
    from processGrid_items [OF Cons.prems(1,2) p this] show ?thesis by auto
  next
    assume "g \<in> set gids \<and> item = \<lparr>grid_id = g, data = cell_entries (db_manager e1) g\<rparr>"
    then show ?thesis by (simp add: db)
  qed
qed

text \<open>
  C10: \<open>loadGridToCache\<close> never returns a null item: it returns, and installs in the cache,
  an item that holds exactly the entries of the store in the key range of the cell (the store
  having one value per key, as LevelDB keeps it). So every visit of a cell during a range
  query takes the cached branch of \<open>processGrid\<close>, never the direct scan of the store. Each
  covered cell in turn becomes the most recently used resident cell: after the query the
  access list is the previous residents followed by the covered cells, most recent first,
  cut at the capacity, so that a query over more cells than the capacity evicts cells
  resident before. Every cell resident after the query holds the item it held before or,
  being a covered cell, the item loaded for it from the store.
\<close>

theorem rangeQuery_materialises_covered_cells:
  assumes "lru_inv (cache e)" and "distinct (map fst (db_manager e))"
    and "rangeQuery e qmin_lon qmin_lat qmax_lon qmax_lat = ((calls, paths), e')"
  shows "fst (loadGridToCache e gid) =
           Some \<lparr>grid_id = gid, data = cell_entries (db_manager e) gid\<rparr> \<and>
         map_of (cache_map (cache (snd (loadGridToCache e gid)))) gid =
           Some \<lparr>grid_id = gid, data = cell_entries (db_manager e) gid\<rparr> \<and>
         set (cell_entries (db_manager e) gid) =
           {(k, v). (k, v) \<in> set (db_manager e) \<and> gid @ ''|'' \<le> k \<and> k < gid @ ''|~''} \<and>
         paths = replicate (length (covered_cells e qmin_lon qmin_lat qmax_lon qmax_lat)) FromCache \<and>
         access_list (cache e') =
           take (capacity (cache e))
             (rev (remdups (rev (access_list (cache e)) @
                            covered_cells e qmin_lon qmin_lat qmax_lon qmax_lat))) \<and>
         fst ` set (cache_map (cache e')) = set (access_list (cache e')) \<and>
         (map_of (cache_map (cache e')) g = Some item \<longrightarrow>
            map_of (cache_map (cache e)) g = Some item \<or>
            g \<in> set (covered_cells e qmin_lon qmin_lat qmax_lon qmax_lat) \<and>
            item = \<lparr>grid_id = g, data = cell_entries (db_manager e) g\<rparr>)"
proof -
  from assms(1) have "distinct (access_list (cache e))"
    "length (access_list (cache e)) \<le> capacity (cache e)"
    by (simp_all add: lru_inv_def)
  then have h: "access_list (cache e) =
      take (capacity (cache e)) (rev (remdups (rev (access_list (cache e)))))"
    by (simp add: distinct_remdups_id)
  from rangeQuery_loop_cache [OF assms(1) h assms(3) [unfolded rangeQuery_def]]
  have r: "paths = replicate (length (covered_cells e qmin_lon qmin_lat qmax_lon qmax_lat)) FromCache"
    "access_list (cache e') =
           take (capacity (cache e))
             (rev (remdups (rev (access_list (cache e)) @
                            covered_cells e qmin_lon qmin_lat qmax_lon qmax_lat)))"
    "lru_inv (cache e')"
    by blast+
  from r(3) have k: "fst ` set (cache_map (cache e')) = set (access_list (cache e'))"
    by (simp add: lru_inv_def)
  have i: "map_of (cache_map (cache e')) g = Some item \<longrightarrow>
            map_of (cache_map (cache e)) g = Some item \<or>
            g \<in> set (covered_cells e qmin_lon qmin_lat qmax_lon qmax_lat) \<and>
            item = \<lparr>grid_id = g, data = cell_entries (db_manager e) g\<rparr>"
    using rangeQuery_loop_items [OF assms(1,2) assms(3) [unfolded rangeQuery_def], of g item]
    by blast
  have ld: "fst (loadGridToCache e gid) =
           Some \<lparr>grid_id = gid, data = cell_entries (db_manager e) gid\<rparr>"
    by (rule loadGridToCache_item [OF assms(2)])
  have "snd (loadGridToCache e gid) =
      e\<lparr>cache := GridLRUCache_put (cache e) gid
           \<lparr>grid_id = gid, data = cell_entries (db_manager e) gid\<rparr>\<rparr>"
    using ld by (simp add: loadGridToCache_def Let_def cell_entries_def)
  then have ins: "map_of (cache_map (cache (snd (loadGridToCache e gid)))) gid =
           Some \<lparr>grid_id = gid, data = cell_entries (db_manager e) gid\<rparr>"
    using GridLRUCache_put_effect(4) [OF assms(1), where gid = gid
        and item = "\<lparr>grid_id = gid, data = cell_entries (db_manager e) gid\<rparr>"]
    by simp
  from r(1,2) k i ld ins set_cell_entries [of "db_manager e" gid]
  show ?thesis by blast
qed

theorem rangeQuery_materialises_covered_cells_witness:
  "lru_inv \<lparr>capacity = 2, access_list = [''G_000_000''],
            cache_map = [(''G_000_000'', \<lparr>grid_id = ''G_000_000'', data = []\<rparr>)]\<rparr> \<and>
   covered_cells beijing 116.405 39.905 116.415 39.915 =
     [''G_090_040'', ''G_090_041'', ''G_091_040'', ''G_091_041''] \<and>
   fst (loadGridToCache
     (beijing\<lparr>db_manager := [(''G_091_041|116.4123000|39.9112000'', ''43.5'')],
        cache := \<lparr>capacity = 2, access_list = [''G_000_000''],
            cache_map = [(''G_000_000'', \<lparr>grid_id = ''G_000_000'', data = []\<rparr>)]\<rparr>\<rparr>)
     ''G_091_041'') =
     Some \<lparr>grid_id = ''G_091_041'', data = [(''G_091_041|116.4123000|39.9112000'', ''43.5'')]\<rparr> \<and>
   snd (fst (rangeQuery
     (beijing\<lparr>db_manager := [(''G_091_041|116.4123000|39.9112000'', ''43.5'')],
        cache := \<lparr>capacity = 2, access_list = [''G_000_000''],
            cache_map = [(''G_000_000'', \<lparr>grid_id = ''G_000_000'', data = []\<rparr>)]\<rparr>\<rparr>)
     116.405 39.905 116.415 39.915)) = [FromCache, FromCache, FromCache, FromCache] \<and>
   access_list (cache (snd (rangeQuery
     (beijing\<lparr>db_manager := [(''G_091_041|116.4123000|39.9112000'', ''43.5'')],
        cache := \<lparr>capacity = 2, access_list = [''G_000_000''],
            cache_map = [(''G_000_000'', \<lparr>grid_id = ''G_000_000'', data = []\<rparr>)]\<rparr>\<rparr>)
     116.405 39.905 116.415 39.915))) = [''G_091_041'', ''G_091_040''] \<and>
   map_of (cache_map (cache (snd (rangeQuery
     (beijing\<lparr>db_manager := [(''G_091_041|116.4123000|39.9112000'', ''43.5'')],
        cache := \<lparr>capacity = 2, access_list = [''G_000_000''],
            cache_map = [(''G_000_000'', \<lparr>grid_id = ''G_000_000'', data = []\<rparr>)]\<rparr>\<rparr>)
     116.405 39.905 116.415 39.915)))) ''G_091_041'' =
     Some \<lparr>grid_id = ''G_091_041'', data = [(''G_091_041|116.4123000|39.9112000'', ''43.5'')]\<rparr>"
proof -
  let ?c = "\<lparr>capacity = 2, access_list = [''G_000_000''],
            cache_map = [(''G_000_000'', \<lparr>grid_id = ''G_000_000'', data = []\<rparr>)]\<rparr>"
  let ?db = "[(''G_091_041|116.4123000|39.9112000'', ''43.5'')]"
  let ?e = "beijing\<lparr>db_manager := ?db, cache := ?c\<rparr>"
  let ?r = "rangeQuery ?e 116.405 39.905 116.415 39.915"
  let ?item = "\<lparr>grid_id = ''G_091_041'', data = ?db\<rparr>"
  have inv: "lru_inv ?c" by (simp add: lru_inv_def)
  then have inv': "lru_inv (cache ?e)" by simp
  have dd: "distinct (map fst (db_manager ?e))" by simp
  have cov: "covered_cells beijing 116.405 39.905 116.415 39.915 =
     [''G_090_040'', ''G_090_041'', ''G_091_040'', ''G_091_041'']"
    by (simp add: covered_cells_def beijing_def lonToGridCol_def latToGridRow_def
        static_cast_int_def text_eval)
  have cov': "covered_cells ?e 116.405 39.905 116.415 39.915 = covered_cells beijing 116.405 39.905 116.415 39.915"
    by (simp add: covered_cells_def beijing_def lonToGridCol_def latToGridRow_def)
  have ce: "cell_entries ?db ''G_091_041'' = ?db"
    by (simp add: cell_entries_def LevelDBManager_rangeQuery_def)
  have run: "?r = ((fst (fst ?r), snd (fst ?r)), snd ?r)" by simp
  note inst = rangeQuery_materialises_covered_cells [OF inv' dd run]
  have ld: "fst (loadGridToCache ?e ''G_091_041'') = Some ?item"
    using inst [of "''G_091_041''" "''G_091_041''" ?item] ce by simp
  have ps: "snd (fst ?r) = [FromCache, FromCache, FromCache, FromCache]"
    using inst [of "''G_091_041''" "''G_091_041''" ?item] cov' cov by simp
  have al: "access_list (cache (snd ?r)) = [''G_091_041'', ''G_091_040'']"
    using inst [of "''G_091_041''" "''G_091_041''" ?item] cov' cov by (simp add: numeral_eq_Suc)
  have "fst ` set (cache_map (cache (snd ?r))) = set (access_list (cache (snd ?r)))"
    using inst [of "''G_091_041''" "''G_091_041''" ?item] by blast
  with al have "''G_091_041'' \<in> fst ` set (cache_map (cache (snd ?r)))" by simp
  then obtain item where m: "map_of (cache_map (cache (snd ?r))) ''G_091_041'' = Some item"
    by (cases "map_of (cache_map (cache (snd ?r))) ''G_091_041''") (auto simp: map_of_eq_None_iff)
  from inst [of "''G_091_041''" "''G_091_041''" item] m
  have "map_of (cache_map (cache ?e)) ''G_091_041'' = Some item \<or> item = ?item"
    using ce by simp
  then have "item = ?item" by simp
  with m have mp: "map_of (cache_map (cache (snd ?r))) ''G_091_041'' = Some ?item" by simp
  from inv cov ld ps al mp show ?thesis by blast
qed

subsection \<open>Scanning a cell through the cache\<close>

lemma set_scan_entries:
  "set (scan_entries a b c d kvs) =
     {(lon, lat, v). \<exists>k. (k, v) \<in> set kvs \<and> parseKey k = Some (lon, lat) \<and>
                         in_rectangle a b c d (lon, lat)}"
  by (induction kvs) (auto simp: scan_entries_def split: option.splits if_splits)

lemma set_scan_entries_cong:
  "set kvs = set kvs' \<Longrightarrow> set (scan_entries a b c d kvs) = set (scan_entries a b c d kvs')"
  by (simp add: set_scan_entries)

lemma cache_consistent_lookup:
  assumes "cache_consistent e" "map_of (cache_map (cache e)) gid = Some item"
  shows "set (data item) = set (cell_entries (db_manager e) gid)"
proof -
  from assms(2) have "(gid, item) \<in> set (cache_map (cache e))" by (rule map_of_SomeD)
  with assms(1) show ?thesis by (auto simp: cache_consistent_def list_all_iff)
qed

lemma cache_consistentI:
  assumes "lru_inv (cache e)" "distinct (map fst (db_manager e))"
    and "\<And>gid item. map_of (cache_map (cache e)) gid = Some item \<Longrightarrow>
           set (data item) = set (cell_entries (db_manager e) gid)"
  shows "cache_consistent e"
proof -
  from assms(1) have d: "distinct (map fst (cache_map (cache e)))" by (simp add: lru_inv_def)
  have "set (data item) = set (cell_entries (db_manager e) gid)"
    if "(gid, item) \<in> set (cache_map (cache e))" for gid item
    using assms(3) [of gid item] map_of_is_SomeI [OF d that] by simp
  with assms(1,2) show ?thesis by (auto simp: cache_consistent_def list_all_iff)
qed

lemma processGrid_results:
  assumes cons: "cache_consistent e"
    and run: "processGrid e gid a b c d = ((calls, path), e')"
  shows "set calls = set (scan_entries a b c d (cell_entries (db_manager e) gid))"
    and "cache_consistent e'"
    and "\<exists>c'. e' = e\<lparr>cache := c'\<rparr>"
proof -
  from cons have inv: "lru_inv (cache e)" and dd: "distinct (map fst (db_manager e))"
    by (simp_all add: cache_consistent_def)
  note eff = processGrid_effect [OF inv run]
  from eff(5) obtain c' where e': "e' = e\<lparr>cache := c'\<rparr>" by blast
  have "set calls = set (scan_entries a b c d (cell_entries (db_manager e) gid)) \<and>
        (\<forall>g item. map_of (cache_map (cache e')) g = Some item \<longrightarrow>
           set (data item) = set (cell_entries (db_manager e) g))"
  proof (cases "map_of (cache_map (cache e)) gid")
    case None
    then have g: "GridLRUCache_get (cache e) gid = (None, cache e)"
      by (rule GridLRUCache_get_miss)
    let ?item = "\<lparr>grid_id = gid, data = cell_entries (db_manager e) gid\<rparr>"
    from loadGridToCache_item [OF dd, of gid]
    have l: "loadGridToCache e gid = (Some ?item, e\<lparr>cache := GridLRUCache_put (cache e) gid ?item\<rparr>)"
      by (simp add: loadGridToCache_def Let_def cell_entries_def)
    from run have calls: "calls = scan_entries a b c d (cell_entries (db_manager e) gid)"
      and e2: "e' = e\<lparr>cache := GridLRUCache_put (cache e) gid ?item\<rparr>"
      by (simp_all add: processGrid_def g l)
    note put = GridLRUCache_put_effect [OF inv, where gid = gid and item = ?item]
    have "set (data item) = set (cell_entries (db_manager e) g)"
      if m: "map_of (cache_map (cache e')) g = Some item" for g item
    proof (cases "g = gid")
      case True
      with m put(4) have "item = ?item" by (simp add: e2)
      then show ?thesis by (simp add: True)
    next
      case False
      from m have "g \<in> set (access_list (GridLRUCache_put (cache e) gid ?item))"
        using lru_inv_resident [OF put(3), of g] by (simp add: e2)
      from put(5) [OF False this] m have "map_of (cache_map (cache e)) g = Some item"
        by (simp add: e2)
      then show ?thesis by (rule cache_consistent_lookup [OF cons])
    qed
    with calls show ?thesis by blast
  next
    case (Some item)
    note g = GridLRUCache_get_hit [OF inv Some]
    from run have calls: "calls = scan_entries a b c d (data item)"
      and e2: "cache_map (cache e') = cache_map (cache e)"
      by (auto simp add: processGrid_def g)
    from cache_consistent_lookup [OF cons Some]
    have "set calls = set (scan_entries a b c d (cell_entries (db_manager e) gid))"
      unfolding calls by (rule set_scan_entries_cong)
    moreover have "set (data item') = set (cell_entries (db_manager e) g)"
      if "map_of (cache_map (cache e')) g = Some item'" for g item'
      using that cache_consistent_lookup [OF cons, of g item'] by (simp add: e2)
    ultimately show ?thesis by blast
  qed
  then show "set calls = set (scan_entries a b c d (cell_entries (db_manager e) gid))"
    and "cache_consistent e'"
    using eff(3) dd by (auto simp: e' intro!: cache_consistentI)
  from eff(5) show "\<exists>c'. e' = e\<lparr>cache := c'\<rparr>" .
qed

lemma rangeQuery_loop_results:
  assumes "cache_consistent e"
    and "rangeQuery_loop e gids a b c d = ((calls, paths), e')"
  shows "set calls = (\<Union>gid\<in>set gids. set (scan_entries a b c d (cell_entries (db_manager e) gid))) \<and>
         cache_consistent e' \<and> (\<exists>c'. e' = e\<lparr>cache := c'\<rparr>)"
  using assms
proof (induction gids arbitrary: e calls paths)
  case Nil
  then show ?case by (auto intro: exI [of _ "cache e"])
next
  case (Cons gid gids)
  obtain calls1 path e1 where p: "processGrid e gid a b c d = ((calls1, path), e1)"
    by (metis surj_pair)
  obtain calls2 paths2 where l: "rangeQuery_loop e1 gids a b c d = ((calls2, paths2), e')"
    and cs: "calls = calls1 @ calls2"
    using Cons.prems(2) p by (auto split: prod.splits)
  note res = processGrid_results [OF Cons.prems(1) p]
  from res(3) obtain c1 where e1: "e1 = e\<lparr>cache := c1\<rparr>" by blast
  from Cons.IH [OF res(2) l] res(1) show ?case
    by (auto simp: cs e1)
qed

lemma rangeQuery_results:
  assumes "cache_consistent e"
  shows "set (fst (fst (rangeQuery e qmin_lon qmin_lat qmax_lon qmax_lat))) =
           {(lon, lat, v). \<exists>k gid.
              gid \<in> set (covered_cells e qmin_lon qmin_lat qmax_lon qmax_lat) \<and>
              (k, v) \<in> set (db_manager e) \<and> gid @ ''|'' \<le> k \<and> k < gid @ ''|~'' \<and>
              parseKey k = Some (lon, lat) \<and>
              in_rectangle qmin_lon qmin_lat qmax_lon qmax_lat (lon, lat)}"
proof -
  obtain calls paths e2 where
    run: "rangeQuery_loop e (covered_cells e qmin_lon qmin_lat qmax_lon qmax_lat)
            qmin_lon qmin_lat qmax_lon qmax_lat = ((calls, paths), e2)"
    by (metis surj_pair)
  from rangeQuery_loop_results [OF assms run]
  have "set calls = (\<Union>gid\<in>set (covered_cells e qmin_lon qmin_lat qmax_lon qmax_lat).
      set (scan_entries qmin_lon qmin_lat qmax_lon qmax_lat (cell_entries (db_manager e) gid)))"
    by blast
  then show ?thesis
    by (auto simp: rangeQuery_def run set_scan_entries set_cell_entries)
qed

subsection \<open>A key records its coordinates to seven digits\<close>

lemma digit_value_nth: "d < 10 \<Longrightarrow> digit_value (''0123456789'' ! d) = d"
proof -
  assume "d < 10"
  then have "d \<in> {0, 1, 2, 3, 4, 5, 6, 7, 8, 9}" by auto
  then show ?thesis by (auto simp: digit_value_def)
qed

lemma digits_value_snoc: "digits_value (ds @ [c]) = 10 * digits_value ds + digit_value c"
  by (simp add: digits_value_def)

lemma digits_value_dec_digits: "digits_value (dec_digits n) = n"
proof (induction n rule: dec_digits.induct)
  case (1 n)
  show ?case
  proof (cases "n < 10")
    case True
    then have "dec_digits n = [''0123456789'' ! n]" by (subst dec_digits.simps) simp
    with True show ?thesis by (simp add: digits_value_def digit_value_nth)
  next
    case False
    then have eq: "dec_digits n = dec_digits (n div 10) @ [''0123456789'' ! (n mod 10)]"
      by (subst dec_digits.simps) simp
    from 1 [OF False] show ?thesis
      unfolding eq digits_value_snoc by (simp add: digit_value_nth)
  qed
qed

lemma digits_value_append:
  "digits_value (xs @ ys) = digits_value xs * 10 ^ length ys + digits_value ys"
proof (induction ys rule: rev_induct)
  case Nil
  then show ?case by (simp add: digits_value_def)
next
  case (snoc y ys)
  have "digits_value (xs @ ys @ [y]) = 10 * digits_value (xs @ ys) + digit_value y"
    using digits_value_snoc [of "xs @ ys" y] by simp
  with snoc show ?case by (simp add: digits_value_snoc algebra_simps)
qed

lemma digits_value_zeros: "digits_value (replicate k (CHR ''0'') @ ds) = digits_value ds"
proof -
  have z: "digit_value (CHR ''0'') = 0" by (simp add: digit_value_def)
  have "digits_value (replicate k (CHR ''0'')) = 0"
  proof (induction k)
    case 0
    then show ?case by (simp add: digits_value_def)
  next
    case (Suc k)
    have "replicate (Suc k) (CHR ''0'') = replicate k (CHR ''0'') @ [CHR ''0'']"
      by (simp add: replicate_append_same)
    then show ?case using Suc by (simp add: digits_value_snoc z del: replicate_Suc)
  qed
  then show ?thesis by (simp add: digits_value_append)
qed

lemma length_dec_digits: "n < 10 ^ k \<Longrightarrow> 0 < k \<Longrightarrow> length (dec_digits n) \<le> k"
proof (induction n arbitrary: k rule: dec_digits.induct)
  case (1 n)
  show ?case
  proof (cases "n < 10")
    case True
    then have "dec_digits n = [''0123456789'' ! n]" by (subst dec_digits.simps) simp
    with 1(3) show ?thesis by simp
  next
    case False
    then have eq: "dec_digits n = dec_digits (n div 10) @ [''0123456789'' ! (n mod 10)]"
      by (subst dec_digits.simps) simp
    from 1(3) obtain j where k: "k = Suc j" by (cases k) auto
    from False 1(2) have j: "0 < j" unfolding k by (cases j) auto
    from 1(2) have "n div 10 < 10 ^ j" unfolding k
      by (simp add: less_mult_imp_div_less mult.commute)
    from 1(1) [OF False this j] show ?thesis unfolding eq k by simp
  qed
qed

lemma isdigit_dec_digits: "c \<in> set (dec_digits n) \<Longrightarrow> isdigit c"
  unfolding isdigit_def using dec_digits_chars [of n] by blast

lemma takeWhile_digits:
  assumes "\<And>c. c \<in> set ds \<Longrightarrow> isdigit c" "rest = [] \<or> \<not> isdigit (hd rest)"
  shows "takeWhile isdigit (ds @ rest) = ds" "dropWhile isdigit (ds @ rest) = rest"
proof -
  from assms(2) have t: "takeWhile isdigit rest = []" and d: "dropWhile isdigit rest = rest"
    by (cases rest; simp)+
  from assms(1) show "takeWhile isdigit (ds @ rest) = ds"
    by (simp add: takeWhile_append2 t)
  from assms(1) show "dropWhile isdigit (ds @ rest) = rest"
    by (simp add: dropWhile_append2 d)
qed

text \<open>What \<open>stod\<close> reads from an integer part, a point and a fraction, all digits.\<close>

lemma stod_digits_point_digits:
  assumes ip: "ip \<noteq> []" "\<And>c. c \<in> set ip \<Longrightarrow> isdigit c"
    and fp: "\<And>c. c \<in> set fp \<Longrightarrow> isdigit c"
  shows "stod (ip @ ''.'' @ fp) = Some (real (digits_value (ip @ fp)) / 10 ^ length fp)"
    and "stod (''-'' @ ip @ ''.'' @ fp) = Some (- (real (digits_value (ip @ fp)) / 10 ^ length fp))"
proof -
  obtain c r where cr: "ip = c # r" using ip(1) by (cases ip) auto
  have cd: "isdigit c" using ip(2) [of c] cr by simp
  have c1: "\<not> isspace c" "c \<noteq> CHR ''-''" "c \<noteq> CHR ''+''"
    using cd unfolding isdigit_def isspace_def by auto
  have nd: "\<not> isdigit (CHR ''.'')" by (simp add: isdigit_def)
  have t1: "takeWhile isdigit (ip @ ''.'' @ fp) = ip"
    by (rule takeWhile_digits(1)) (simp_all add: ip(2) nd)
  have d1: "dropWhile isdigit (ip @ ''.'' @ fp) = ''.'' @ fp"
    by (rule takeWhile_digits(2)) (simp_all add: ip(2) nd)
  have t2: "takeWhile isdigit fp = fp"
    using takeWhile_digits(1) [of fp "[]"] fp by simp
  have d2: "dropWhile isdigit fp = []"
    using takeWhile_digits(2) [of fp "[]"] fp by simp
  have sp: "dropWhile isspace (ip @ ''.'' @ fp) = ip @ ''.'' @ fp"
    using c1 by (simp add: cr)
  have sg: "strip_sign (ip @ ''.'' @ fp) = (False, ip @ ''.'' @ fp)"
    using c1 by (simp add: cr strip_sign_def)
  show "stod (ip @ ''.'' @ fp) = Some (real (digits_value (ip @ fp)) / 10 ^ length fp)"
    unfolding stod_def sp sg using ip(1) t1 d1
    by (simp add: t2 d2 stod_exponent_def Let_def)
  have sp': "dropWhile isspace (''-'' @ ip @ ''.'' @ fp) = ''-'' @ ip @ ''.'' @ fp"
    by (simp add: isspace_def)
  have sg': "strip_sign (''-'' @ ip @ ''.'' @ fp) = (True, ip @ ''.'' @ fp)"
    by (simp add: strip_sign_def)
  show "stod (''-'' @ ip @ ''.'' @ fp) = Some (- (real (digits_value (ip @ fp)) / 10 ^ length fp))"
    unfolding stod_def sp' sg' using ip(1) t1 d1
    by (simp add: t2 d2 stod_exponent_def Let_def)
qed

lemma stod_fixed7: "stod (fixed7 x) = Some (round7 x)"
proof -
  define n where "n = nat (round_half_even (\<bar>x\<bar> * 10 ^ 7))"
  define ip where "ip = dec_digits (n div 10 ^ 7)"
  define fp where "fp = setw_setfill 7 (CHR ''0'') (dec_digits (n mod 10 ^ 7))"
  have f: "fixed7 x = (if x < 0 then ''-'' else '''') @ ip @ ''.'' @ fp"
    unfolding fixed7_def Let_def n_def ip_def fp_def by simp
  have ip1: "ip \<noteq> []" unfolding ip_def using dec_digits_chars by blast
  have ip2: "isdigit c" if "c \<in> set ip" for c
    using that unfolding ip_def by (rule isdigit_dec_digits)
  have "length (dec_digits (n mod 10 ^ 7)) \<le> 7"
    by (rule length_dec_digits) simp_all
  then have len: "length fp = 7"
    unfolding fp_def setw_setfill_def by simp
  have fp2: "isdigit c" if "c \<in> set fp" for c
  proof -
    from that have "c = CHR ''0'' \<or> c \<in> set (dec_digits (n mod 10 ^ 7))"
      unfolding fp_def setw_setfill_def by auto
    then show ?thesis
    proof
      assume "c = CHR ''0''"
      then show ?thesis by (simp add: isdigit_def)
    next
      assume "c \<in> set (dec_digits (n mod 10 ^ 7))"
      then show ?thesis by (rule isdigit_dec_digits)
    qed
  qed
  have "digits_value fp = n mod 10 ^ 7"
    unfolding fp_def setw_setfill_def by (simp only: digits_value_zeros digits_value_dec_digits)
  then have "digits_value (ip @ fp) = n div 10 ^ 7 * 10 ^ 7 + n mod 10 ^ 7"
    unfolding digits_value_append len ip_def by (simp only: digits_value_dec_digits)
  then have val: "digits_value (ip @ fp) = n" by simp
  have st1: "stod (ip @ ''.'' @ fp) = Some (real (digits_value (ip @ fp)) / 10 ^ length fp)"
    using stod_digits_point_digits(1) [of ip fp] ip1 ip2 fp2 by blast
  have st2: "stod (''-'' @ ip @ ''.'' @ fp) = Some (- (real (digits_value (ip @ fp)) / 10 ^ length fp))"
    using stod_digits_point_digits(2) [of ip fp] ip1 ip2 fp2 by blast
  have r1: "stod (ip @ ''.'' @ fp) = Some (real n / 10 ^ 7)"
    using st1 unfolding val len .
  have r2: "stod (''-'' @ ip @ ''.'' @ fp) = Some (- (real n / 10 ^ 7))"
    using st2 unfolding val len .
  show ?thesis
  proof (cases "x < 0")
    case True
    then have "stod (fixed7 x) = stod (''-'' @ ip @ ''.'' @ fp)" by (simp add: f)
    also note r2
    also have "Some (- (real n / 10 ^ 7)) = Some (round7 x)"
      unfolding round7_def n_def using True by simp
    finally show ?thesis .
  next
    case False
    then have "stod (fixed7 x) = stod (ip @ ''.'' @ fp)" by (simp add: f)
    also note r1
    also have "Some (real n / 10 ^ 7) = Some (round7 x)"
      unfolding round7_def n_def using False by simp
    finally show ?thesis .
  qed
qed

text \<open>A coordinate with at most seven fractional digits is recorded as it is.\<close>

lemma round_half_even_of_int: "round_half_even (of_int m) = m"
  by (simp add: round_half_even_def)

lemma round7_exact:
  assumes "x * 10 ^ 7 = of_int m"
  shows "round7 x = x"
proof -
  have a: "\<bar>x\<bar> * 10 ^ 7 = of_int \<bar>m\<bar>"
  proof -
    have "\<bar>x\<bar> * 10 ^ 7 = \<bar>x * 10 ^ 7\<bar>" by (simp add: abs_mult)
    also have "\<dots> = of_int \<bar>m\<bar>" unfolding assms by simp
    finally show ?thesis .
  qed
  have "real (nat (round_half_even (\<bar>x\<bar> * 10 ^ 7))) = of_int \<bar>m\<bar>"
    unfolding a round_half_even_of_int by simp
  then have b: "real (nat (round_half_even (\<bar>x\<bar> * 10 ^ 7))) = \<bar>x\<bar> * 10 ^ 7"
    unfolding a .
  show ?thesis
  proof (cases "x < 0")
    case True
    then show ?thesis unfolding round7_def b by simp
  next
    case False
    then show ?thesis unfolding round7_def b by simp
  qed
qed

text \<open>
  A key in the key range of a cell starts with the id of the cell and a bar, so the key
  ranges of two ids without a bar do not meet.
\<close>

lemma key_range_prefix:
  assumes "gid @ ''|'' \<le> x" "x < gid @ ''|~''"
  shows "\<exists>r. x = gid @ ''|'' @ r"
  using assms
proof (induction gid arbitrary: x)
  case Nil
  then show ?case by (cases x) (auto split: if_splits)
next
  case (Cons a g)
  then show ?case by (cases x) (auto split: if_splits)
qed

lemma bar_free_prefix_unique:
  assumes "CHR ''|'' \<notin> set g" "CHR ''|'' \<notin> set g'" "g @ CHR ''|'' # r = g' @ CHR ''|'' # r'"
  shows "g = g'"
  using assms
proof (induction g arbitrary: g')
  case Nil
  then show ?case by (cases g') auto
next
  case (Cons a g)
  then show ?case by (cases g') auto
qed

lemma isdigit_not_bar: "isdigit c \<Longrightarrow> c \<noteq> CHR ''|''"
  by (auto simp: isdigit_def)

lemma dec_digits_bar_free: "CHR ''|'' \<notin> set (dec_digits n)"
  using isdigit_dec_digits [of "CHR ''|''" n] isdigit_not_bar by blast

lemma int_to_string_bar_free: "CHR ''|'' \<notin> set (int_to_string i)"
  by (simp add: int_to_string_def dec_digits_bar_free)

lemma setw_setfill_bar_free:
  "CHR ''|'' \<notin> set s \<Longrightarrow> c \<noteq> CHR ''|'' \<Longrightarrow> CHR ''|'' \<notin> set (setw_setfill w c s)"
  by (auto simp: setw_setfill_def)

lemma formatGridId_bar_free: "CHR ''|'' \<notin> set (formatGridId row col)"
  by (simp add: formatGridId_def setw_setfill_bar_free int_to_string_bar_free)

lemma fixed7_bar_free: "CHR ''|'' \<notin> set (fixed7 x)"
  by (simp add: fixed7_def Let_def setw_setfill_bar_free dec_digits_bar_free)

lemma takeWhile_bar:
  assumes "CHR ''|'' \<notin> set s"
  shows "takeWhile (\<lambda>c. c \<noteq> CHR ''|'') (s @ CHR ''|'' # t) = s"
    and "dropWhile (\<lambda>c. c \<noteq> CHR ''|'') (s @ CHR ''|'' # t) = CHR ''|'' # t"
  using assms by (induction s) auto

text \<open>Parsing a generated key gives the rounded coordinates back.\<close>

lemma parseKey_generateKey:
  assumes "CHR ''|'' \<notin> set gid"
  shows "parseKey (generateKey lon lat gid) = Some (round7 lon, round7 lat)"
proof -
  have k: "generateKey lon lat gid = gid @ CHR ''|'' # (fixed7 lon @ CHR ''|'' # fixed7 lat)"
    by (simp add: generateKey_def)
  show ?thesis
    unfolding parseKey_def k
    by (simp add: takeWhile_bar assms fixed7_bar_free stod_fixed7)
qed


subsection \<open>The operations keep the cache in agreement with the store\<close>

lemma set_update_distinct:
  "distinct (map fst al) \<Longrightarrow>
   set (AList.update k v al) = {(k', x). (k', x) \<in> set al \<and> k' \<noteq> k} \<union> {(k, v)}"
proof (induction al)
  case Nil
  then show ?case by simp
next
  case (Cons a al)
  obtain k' x where a: "a = (k', x)" by (cases a)
  from Cons.prems have fresh: "k' \<notin> fst ` set al" and d: "distinct (map fst al)"
    by (simp_all add: a)
  from fresh have nk: "\<And>y. (k', y) \<notin> set al" by (metis fst_conv image_eqI)
  show ?case
  proof (cases "k' = k")
    case True
    with nk show ?thesis by (auto simp: a)
  next
    case False
    with Cons.IH [OF d] show ?thesis by (auto simp: a)
  qed
qed

lemma cell_entries_update_other:
  assumes "CHR ''|'' \<notin> set g" "CHR ''|'' \<notin> set g'" "g' \<noteq> g"
  shows "set (cell_entries (AList.update (generateKey lon lat g) v db) g') = set (cell_entries db g')"
proof -
  let ?k = "generateKey lon lat g"
  have out: "\<not> (g' @ ''|'' \<le> ?k \<and> ?k < g' @ ''|~'')"
  proof
    assume "g' @ ''|'' \<le> ?k \<and> ?k < g' @ ''|~''"
    then obtain r where "?k = g' @ ''|'' @ r" using key_range_prefix by blast
    then have "g @ CHR ''|'' # (fixed7 lon @ ''|'' @ fixed7 lat) = g' @ CHR ''|'' # r"
      by (simp add: generateKey_def)
    from bar_free_prefix_unique [OF assms(1,2) this] assms(3) show False by simp
  qed
  have upd: "(k, x) \<in> set (AList.update ?k v db) \<longleftrightarrow> (k, x) \<in> set db"
    if "k \<noteq> ?k" for k x
    using that by (induction db) auto
  have "(k, x) \<in> set (cell_entries (AList.update ?k v db) g') \<longleftrightarrow>
        (k, x) \<in> set (cell_entries db g')" for k x
  proof (cases "k = ?k")
    case True
    with out show ?thesis unfolding set_cell_entries by blast
  next
    case False
    from upd [OF this] show ?thesis by (simp add: set_cell_entries)
  qed
  then show ?thesis by (intro set_eqI) (simp add: split_paired_all)
qed

lemma cell_entries_update_same:
  assumes "distinct (map fst db)"
  shows "set (cell_entries (AList.update (generateKey lon lat g) v db) g) =
         {(k', x). (k', x) \<in> set (cell_entries db g) \<and> k' \<noteq> generateKey lon lat g} \<union>
         {(generateKey lon lat g, v)}"
proof -
  let ?k = "generateKey lon lat g"
  from generateKey_in_cell_range [of g lon lat]
  have r: "g @ ''|'' \<le> ?k \<and> ?k < g @ ''|~''"
    by (simp add: less_imp_le)
  have "(k, x) \<in> set (cell_entries (AList.update ?k v db) g) \<longleftrightarrow>
        (k, x) = (?k, v) \<or> (k, x) \<in> set (cell_entries db g) \<and> k \<noteq> ?k" for k x
  proof (cases "k = ?k")
    case True
    with r show ?thesis by (simp add: set_cell_entries set_update_distinct [OF assms])
  next
    case False
    then show ?thesis by (simp add: set_cell_entries set_update_distinct [OF assms])
  qed
  then show ?thesis by (intro set_eqI) (simp add: split_paired_all)
qed

lemma engine_inv_lookup:
  assumes "engine_inv e" "map_of (cache_map (cache e)) g = Some item"
  shows "CHR ''|'' \<notin> set g" "distinct (map fst (data item))"
    "set (data item) = set (cell_entries (db_manager e) g)"
proof -
  from assms(2) have m: "(g, item) \<in> set (cache_map (cache e))" by (rule map_of_SomeD)
  with assms(1) show "CHR ''|'' \<notin> set g" "distinct (map fst (data item))"
    by (auto simp: engine_inv_def list_all_iff)
  from assms show "set (data item) = set (cell_entries (db_manager e) g)"
    by (simp add: engine_inv_def cache_consistent_lookup)
qed

lemma engine_invI:
  assumes "lru_inv (cache e)" "distinct (map fst (db_manager e))"
    and "\<And>g item. map_of (cache_map (cache e)) g = Some item \<Longrightarrow>
           CHR ''|'' \<notin> set g \<and> distinct (map fst (data item)) \<and>
           set (data item) = set (cell_entries (db_manager e) g)"
  shows "engine_inv e"
proof -
  from assms(1) have d: "distinct (map fst (cache_map (cache e)))" by (simp add: lru_inv_def)
  have *: "CHR ''|'' \<notin> set g \<and> distinct (map fst (data item))"
    if "(g, item) \<in> set (cache_map (cache e))" for g item
    using assms(3) [of g item] map_of_is_SomeI [OF d that] by simp
  have "cache_consistent e"
    using assms by (intro cache_consistentI) auto
  with * show ?thesis by (auto simp: engine_inv_def list_all_iff)
qed

text \<open>
  Every operation of the engine that returns normally keeps \<open>engine_inv\<close>, \<open>preloadGrid\<close>
  being given an id without a bar. A batch that throws need not: the cache then holds
  writes the store never received (\<open>batchPut_cache_best_effort\<close>).
\<close>

lemma engine_inv_put:
  assumes inv: "engine_inv e" and p: "put e lon lat v = Inr e'"
  shows "engine_inv e'"
proof -
  let ?g = "computeGridId e lon lat"
  let ?k = "generateKey lon lat ?g"
  let ?db = "AList.update ?k v (db_manager e)"
  from inv have cons: "cache_consistent e" by (simp add: engine_inv_def)
  then have li: "lru_inv (cache e)" and dd: "distinct (map fst (db_manager e))"
    by (simp_all add: cache_consistent_def)
  have gb: "CHR ''|'' \<notin> set ?g" by (simp add: computeGridId_def formatGridId_bar_free)
  have dd': "distinct (map fst ?db)" using dd by (simp add: distinct_update)
  from p have wb: "isWithinBounds e lon lat" by (simp add: put_def split: if_splits)
  show ?thesis
  proof (cases "map_of (cache_map (cache e)) ?g")
    case None
    then have g: "GridLRUCache_get (cache e) ?g = (None, cache e)"
      by (rule GridLRUCache_get_miss)
    from p wb have e': "e' = e\<lparr>db_manager := ?db\<rparr>"
      by (simp add: put_def g LevelDBManager_put_def)
    show ?thesis
    proof (rule engine_invI)
      show "lru_inv (cache e')" using li by (simp add: e')
      show "distinct (map fst (db_manager e'))" using dd' by (simp add: e')
      fix g' item
      assume "map_of (cache_map (cache e')) g' = Some item"
      then have m: "map_of (cache_map (cache e)) g' = Some item" by (simp add: e')
      with None have ne: "g' \<noteq> ?g" by auto
      note l = engine_inv_lookup [OF inv m]
      from cell_entries_update_other [OF gb l(1) ne] l
      show "CHR ''|'' \<notin> set g' \<and> distinct (map fst (data item)) \<and>
            set (data item) = set (cell_entries (db_manager e') g')"
        by (simp add: e')
    qed
  next
    case (Some item)
    let ?c1 = "(cache e)\<lparr>access_list := take (capacity (cache e)) (?g # removeAll ?g (access_list (cache e)))\<rparr>"
    let ?item = "item\<lparr>data := AList.update ?k v (data item)\<rparr>"
    note g = GridLRUCache_get_hit [OF li Some]
    from Some have res: "?g \<in> set (access_list (cache e))"
      using lru_inv_resident [OF li, of ?g] by simp
    note li1 = lru_inv_touch [OF li res]
    have ia: "item_assign ?c1 ?g ?k v = ?c1\<lparr>cache_map := AList.update ?g ?item (cache_map (cache e))\<rparr>"
      using Some by (simp add: item_assign_def)
    from p wb have e': "e' = e\<lparr>cache := ?c1\<lparr>cache_map := AList.update ?g ?item (cache_map (cache e))\<rparr>,
        db_manager := ?db\<rparr>"
      by (simp add: put_def g ia LevelDBManager_put_def Let_def)
    from Some have "?g \<in> fst ` set (cache_map (cache e))"
      by (metis map_of_eq_None_iff option.distinct(1))
    then have keys: "map fst (AList.update ?g ?item (cache_map (cache e))) = map fst (cache_map (cache e))"
      by (simp add: update_keys)
    show ?thesis
    proof (rule engine_invI)
      have ks: "fst ` set (AList.update ?g ?item (cache_map (cache e))) = fst ` set (cache_map (cache e))"
        using arg_cong [OF keys, of set] by simp
      show "lru_inv (cache e')"
        using li1 unfolding lru_inv_def e' by (simp add: keys ks)
      show "distinct (map fst (db_manager e'))" using dd' by (simp add: e')
      fix g' item'
      assume "map_of (cache_map (cache e')) g' = Some item'"
      then have m: "(if g' = ?g then Some ?item else map_of (cache_map (cache e)) g') = Some item'"
        by (simp add: e' update_conv')
      show "CHR ''|'' \<notin> set g' \<and> distinct (map fst (data item')) \<and>
            set (data item') = set (cell_entries (db_manager e') g')"
      proof (cases "g' = ?g")
        case True
        with m have it: "item' = ?item" by simp
        note l = engine_inv_lookup [OF inv Some]
        have "set (AList.update ?k v (data item)) = set (cell_entries ?db ?g)"
          unfolding set_update_distinct [OF l(2)] cell_entries_update_same [OF dd] l(3) ..
        with l gb show ?thesis by (simp add: it True e' distinct_update)
      next
        case False
        with m have m': "map_of (cache_map (cache e)) g' = Some item'" by simp
        note l = engine_inv_lookup [OF inv m']
        from cell_entries_update_other [OF gb l(1) False] l
        show ?thesis by (simp add: e')
      qed
    qed
  qed
qed

lemma engine_inv_cache_consistent: "engine_inv e \<Longrightarrow> cache_consistent e"
  by (simp add: engine_inv_def)

lemma engine_inv_new:
  assumes "TerrainStorageEngine_new db a b c d g n = Constructed e" "distinct (map fst db)"
  shows "engine_inv e"
proof -
  from assms(1) have "cache e = GridLRUCache_new n" "db_manager e = db"
    by (auto simp: TerrainStorageEngine_new_def Let_def split: if_splits)
  with assms(2) show ?thesis
    by (intro engine_invI) (simp_all add: GridLRUCache_new_inv, simp add: GridLRUCache_new_def)
qed

lemma engine_inv_clearCache: "engine_inv e \<Longrightarrow> engine_inv (clearCache e)"
  by (simp add: engine_inv_def cache_consistent_def clearCache_def GridLRUCache_clear_def lru_inv_def)

lemma engine_inv_touch:
  assumes inv: "engine_inv e" and res: "gid \<in> set (access_list (cache e))"
  shows "engine_inv (e\<lparr>cache := (cache e)\<lparr>access_list :=
           take (capacity (cache e)) (gid # removeAll gid (access_list (cache e)))\<rparr>\<rparr>)"
proof (rule engine_invI)
  from inv have li: "lru_inv (cache e)" by (simp add: engine_inv_def cache_consistent_def)
  from lru_inv_touch [OF li res]
  show "lru_inv (cache (e\<lparr>cache := (cache e)\<lparr>access_list :=
           take (capacity (cache e)) (gid # removeAll gid (access_list (cache e)))\<rparr>\<rparr>))"
    by simp
  from inv show "distinct (map fst (db_manager (e\<lparr>cache := (cache e)\<lparr>access_list :=
           take (capacity (cache e)) (gid # removeAll gid (access_list (cache e)))\<rparr>\<rparr>)))"
    by (simp add: engine_inv_def cache_consistent_def)
  fix g item
  assume "map_of (cache_map (cache (e\<lparr>cache := (cache e)\<lparr>access_list :=
           take (capacity (cache e)) (gid # removeAll gid (access_list (cache e)))\<rparr>\<rparr>))) g = Some item"
  then have "map_of (cache_map (cache e)) g = Some item" by simp
  from engine_inv_lookup [OF inv this]
  show "CHR ''|'' \<notin> set g \<and> distinct (map fst (data item)) \<and>
        set (data item) = set (cell_entries (db_manager (e\<lparr>cache := (cache e)\<lparr>access_list :=
           take (capacity (cache e)) (gid # removeAll gid (access_list (cache e)))\<rparr>\<rparr>)) g)"
    by simp
qed

lemma engine_inv_load:
  assumes inv: "engine_inv e" and gb: "CHR ''|'' \<notin> set gid"
  shows "engine_inv (snd (loadGridToCache e gid))"
proof -
  from inv have li: "lru_inv (cache e)" and dd: "distinct (map fst (db_manager e))"
    by (simp_all add: engine_inv_def cache_consistent_def)
  let ?item = "\<lparr>grid_id = gid, data = cell_entries (db_manager e) gid\<rparr>"
  from loadGridToCache_item [OF dd, of gid]
  have l: "snd (loadGridToCache e gid) = e\<lparr>cache := GridLRUCache_put (cache e) gid ?item\<rparr>"
    by (simp add: loadGridToCache_def Let_def cell_entries_def)
  note put = GridLRUCache_put_effect [OF li, where gid = gid and item = ?item]
  show ?thesis
    unfolding l
  proof (rule engine_invI)
    show "lru_inv (cache (e\<lparr>cache := GridLRUCache_put (cache e) gid ?item\<rparr>))"
      using put(3) by simp
    show "distinct (map fst (db_manager (e\<lparr>cache := GridLRUCache_put (cache e) gid ?item\<rparr>)))"
      using dd by simp
    fix g item
    assume "map_of (cache_map (cache (e\<lparr>cache := GridLRUCache_put (cache e) gid ?item\<rparr>))) g = Some item"
    then have m: "map_of (cache_map (GridLRUCache_put (cache e) gid ?item)) g = Some item" by simp
    have "CHR ''|'' \<notin> set g \<and> distinct (map fst (data item)) \<and>
          set (data item) = set (cell_entries (db_manager e) g)"
    proof (cases "g = gid")
      case True
      with m put(4) have "item = ?item" by simp
      with gb distinct_cell_entries [OF dd, of gid] show ?thesis by (simp add: True)
    next
      case False
      from m have "g \<in> set (access_list (GridLRUCache_put (cache e) gid ?item))"
        using lru_inv_resident [OF put(3), of g] by simp
      from put(5) [OF False this] m have "map_of (cache_map (cache e)) g = Some item" by simp
      from engine_inv_lookup [OF inv this] show ?thesis by simp
    qed
    then show "CHR ''|'' \<notin> set g \<and> distinct (map fst (data item)) \<and>
          set (data item) = set (cell_entries (db_manager (e\<lparr>cache := GridLRUCache_put (cache e) gid ?item\<rparr>)) g)"
      by simp
  qed
qed

lemma engine_inv_preloadGrid:
  "engine_inv e \<Longrightarrow> CHR ''|'' \<notin> set gid \<Longrightarrow> engine_inv (preloadGrid e gid)"
  by (simp add: preloadGrid_def engine_inv_load)

lemma engine_inv_processGrid:
  assumes inv: "engine_inv e" and gb: "CHR ''|'' \<notin> set gid"
    and run: "processGrid e gid a b c d = (r, e')"
  shows "engine_inv e'"
proof -
  from inv have li: "lru_inv (cache e)" by (simp add: engine_inv_def cache_consistent_def)
  show ?thesis
  proof (cases "map_of (cache_map (cache e)) gid")
    case None
    then have g: "GridLRUCache_get (cache e) gid = (None, cache e)"
      by (rule GridLRUCache_get_miss)
    obtain item e2 where l: "loadGridToCache e gid = (Some item, e2)"
      by (simp add: loadGridToCache_def Let_def)
    from run have "e' = e2" by (auto simp add: processGrid_def g l)
    with engine_inv_load [OF inv gb] l show ?thesis by simp
  next
    case (Some item)
    note g = GridLRUCache_get_hit [OF li Some]
    from Some have mem: "gid \<in> set (access_list (cache e))"
      using lru_inv_resident [OF li, of gid] by simp
    from run have "e' = e\<lparr>cache := (cache e)\<lparr>access_list :=
        take (capacity (cache e)) (gid # removeAll gid (access_list (cache e)))\<rparr>\<rparr>"
      by (auto simp add: processGrid_def g)
    with engine_inv_touch [OF inv mem] show ?thesis by simp
  qed
qed

lemma engine_inv_rangeQuery_loop:
  assumes "engine_inv e" "\<And>g. g \<in> set gids \<Longrightarrow> CHR ''|'' \<notin> set g"
    and "rangeQuery_loop e gids a b c d = (r, e')"
  shows "engine_inv e'"
  using assms
proof (induction gids arbitrary: e r)
  case Nil
  then show ?case by simp
next
  case (Cons gid gids)
  obtain r1 e1 where p: "processGrid e gid a b c d = (r1, e1)" by (metis surj_pair)
  obtain r2 where l: "rangeQuery_loop e1 gids a b c d = (r2, e')"
    using Cons.prems(3) p by (auto split: prod.splits)
  from Cons.prems(2) have gb: "CHR ''|'' \<notin> set gid" by simp
  from Cons.prems(2) have rest: "\<And>g. g \<in> set gids \<Longrightarrow> CHR ''|'' \<notin> set g" by simp
  from Cons.IH [OF engine_inv_processGrid [OF Cons.prems(1) gb p] rest l] show ?case .
qed

lemma covered_cells_bar_free:
  "g \<in> set (covered_cells e a b c d) \<Longrightarrow> CHR ''|'' \<notin> set g"
  by (auto simp: covered_cells_def Let_def formatGridId_bar_free)

lemma engine_inv_rangeQuery:
  assumes "engine_inv e"
  shows "engine_inv (snd (rangeQuery e a b c d))"
proof -
  obtain r e' where l: "rangeQuery_loop e (covered_cells e a b c d) a b c d = (r, e')"
    by (metis surj_pair)
  from engine_inv_rangeQuery_loop [OF assms covered_cells_bar_free l] l
  show ?thesis by (simp add: rangeQuery_def)
qed

lemma engine_inv_evict:
  assumes inv: "engine_inv e"
  shows "engine_inv (evictGridFromCache e gid)"
proof (cases "map_of (cache_map (cache e)) gid")
  case None
  then have "evictGridFromCache e gid = e"
    by (simp add: evictGridFromCache_def GridLRUCache_remove_def)
  with inv show ?thesis by simp
next
  case (Some item)
  from inv have li: "lru_inv (cache e)" and dd: "distinct (map fst (db_manager e))"
    by (simp_all add: engine_inv_def cache_consistent_def)
  let ?c = "(cache e)\<lparr>access_list := remove1 gid (access_list (cache e)),
                       cache_map := AList.delete gid (cache_map (cache e))\<rparr>"
  from Some have ev: "evictGridFromCache e gid = e\<lparr>cache := ?c\<rparr>"
    by (simp add: evictGridFromCache_def GridLRUCache_remove_def)
  from li have d: "distinct (access_list (cache e))" and dm: "distinct (map fst (cache_map (cache e)))"
    and s: "set (access_list (cache e)) = fst ` set (cache_map (cache e))"
    and le: "length (access_list (cache e)) \<le> capacity (cache e)" and cap: "0 < capacity (cache e)"
    by (simp_all add: lru_inv_def)
  have s': "set (remove1 gid (access_list (cache e))) = fst ` set (AList.delete gid (cache_map (cache e)))"
  proof -
    have "fst ` set (AList.delete gid (cache_map (cache e))) =
          set (map fst (AList.delete gid (cache_map (cache e))))" by simp
    also have "\<dots> = set (map fst (cache_map (cache e))) - {gid}"
      by (simp only: delete_keys set_removeAll)
    finally show ?thesis using d s by simp
  qed
  have "length (remove1 gid (access_list (cache e))) \<le> length (access_list (cache e))"
    by (simp add: length_remove1)
  with le have le': "length (remove1 gid (access_list (cache e))) \<le> capacity (cache e)" by simp
  have li': "lru_inv ?c"
    unfolding lru_inv_def using cap d dm s' le' by (simp add: distinct_delete)
  show ?thesis
    unfolding ev
  proof (rule engine_invI)
    show "lru_inv (cache (e\<lparr>cache := ?c\<rparr>))" using li' by simp
    show "distinct (map fst (db_manager (e\<lparr>cache := ?c\<rparr>)))" using dd by simp
    fix g it
    assume "map_of (cache_map (cache (e\<lparr>cache := ?c\<rparr>))) g = Some it"
    then have "map_of (cache_map (cache e)) g = Some it"
      by (simp add: delete_conv' split: if_splits)
    from engine_inv_lookup [OF inv this]
    show "CHR ''|'' \<notin> set g \<and> distinct (map fst (data it)) \<and>
          set (data it) = set (cell_entries (db_manager (e\<lparr>cache := ?c\<rparr>)) g)"
      by simp
  qed
qed

lemma engine_inv_get:
  assumes inv: "engine_inv e"
  shows "engine_inv (snd (get e lon lat))"
proof (cases "isWithinBounds e lon lat")
  case False
  with inv show ?thesis by (simp add: get_def)
next
  case wb: True
  let ?g = "computeGridId e lon lat"
  let ?k = "generateKey lon lat ?g"
  from inv have li: "lru_inv (cache e)" by (simp add: engine_inv_def cache_consistent_def)
  have gb: "CHR ''|'' \<notin> set ?g" by (simp add: computeGridId_def formatGridId_bar_free)
  show ?thesis
  proof (cases "map_of (cache_map (cache e)) ?g")
    case None
    then have g: "GridLRUCache_get (cache e) ?g = (None, cache e)"
      by (rule GridLRUCache_get_miss)
    have "snd (get e lon lat) = snd (loadGridToCache e ?g)"
      using wb by (simp add: get_def g Let_def split: option.splits)
    with engine_inv_load [OF inv gb] show ?thesis by simp
  next
    case (Some item)
    let ?e1 = "e\<lparr>cache := (cache e)\<lparr>access_list :=
        take (capacity (cache e)) (?g # removeAll ?g (access_list (cache e)))\<rparr>\<rparr>"
    note g = GridLRUCache_get_hit [OF li Some]
    from Some have mem: "?g \<in> set (access_list (cache e))"
      using lru_inv_resident [OF li, of ?g] by simp
    note l = engine_inv_lookup [OF inv Some]
    have held: "map_of (data item) ?k \<noteq> None" if "map_of (db_manager e) ?k = Some v" for v
    proof -
      from that have "(?k, v) \<in> set (db_manager e)" by (rule map_of_SomeD)
      with generateKey_in_cell_range [of ?g lon lat]
      have "(?k, v) \<in> set (cell_entries (db_manager e) ?g)"
        by (simp add: set_cell_entries less_imp_le)
      with l(3) have "(?k, v) \<in> set (data item)" by simp
      then have "?k \<in> fst ` set (data item)" by (rule image_eqI [rotated]) simp
      then show ?thesis by (simp add: map_of_eq_None_iff)
    qed
    have "snd (get e lon lat) = ?e1"
    proof (cases "map_of (data item) ?k")
      case (Some v)
      then show ?thesis using wb by (simp add: get_def g Let_def)
    next
      case None
      with held have "map_of (db_manager e) ?k = None" by (cases "map_of (db_manager e) ?k") auto
      with None show ?thesis using wb by (simp add: get_def g Let_def LevelDBManager_get_def)
    qed
    with engine_inv_touch [OF inv mem] show ?thesis by simp
  qed
qed

lemma batchPut_loop_inv:
  assumes "engine_inv (e\<lparr>db_manager := BatchWriter_commit (db_manager e) batch\<rparr>)"
    and "batchPut_loop e batch pts = (Inr b', e')"
  shows "engine_inv (e'\<lparr>db_manager := BatchWriter_commit (db_manager e') b'\<rparr>)"
  using assms
proof (induction pts arbitrary: e batch)
  case Nil
  then show ?case by simp
next
  case (Cons p rest)
  obtain lon lat v where p: "p = (lon, lat, v)" by (cases p) auto
  let ?g = "computeGridId e lon lat"
  let ?k = "generateKey lon lat ?g"
  let ?ev = "e\<lparr>db_manager := BatchWriter_commit (db_manager e) batch\<rparr>"
  from Cons.prems(2) have wb: "isWithinBounds e lon lat"
    by (simp add: p split: if_splits)
  obtain ci c1 where g: "GridLRUCache_get (cache e) ?g = (ci, c1)" by force
  let ?c2 = "case ci of None \<Rightarrow> c1 | Some x \<Rightarrow> item_assign c1 ?g ?k v"
  from Cons.prems(2) wb g
  have l: "batchPut_loop (e\<lparr>cache := ?c2\<rparr>) (BatchWriter_put batch ?k v) rest = (Inr b', e')"
    by (simp add: p Let_def)
  have "put ?ev lon lat v =
      Inr (?ev\<lparr>cache := ?c2, db_manager := LevelDBManager_put (BatchWriter_commit (db_manager e) batch) ?k v\<rparr>)"
    using wb g by (simp add: put_def Let_def)
  from engine_inv_put [OF Cons.prems(1) this]
  have "engine_inv ((e\<lparr>cache := ?c2\<rparr>)\<lparr>db_manager :=
      BatchWriter_commit (db_manager (e\<lparr>cache := ?c2\<rparr>)) (BatchWriter_put batch ?k v)\<rparr>)"
    by (simp add: BatchWriter_commit_def BatchWriter_put_def LevelDBManager_put_def)
  from Cons.IH [OF this l] show ?case .
qed

lemma engine_inv_batchPut:
  assumes "engine_inv e" "batchPut e pts = (Inr (), e')"
  shows "engine_inv e'"
proof -
  from assms(2) obtain b e1 where l: "batchPut_loop e createBatch pts = (Inr b, e1)"
    and e': "e' = e1\<lparr>db_manager := BatchWriter_commit (db_manager e1) b\<rparr>"
    by (auto simp: batchPut_def split: prod.splits sum.splits)
  from assms(1) have "engine_inv (e\<lparr>db_manager := BatchWriter_commit (db_manager e) createBatch\<rparr>)"
    by (simp add: BatchWriter_commit_def createBatch_def)
  from batchPut_loop_inv [OF this l] show ?thesis by (simp add: e')
qed


subsection \<open>Points inside the rectangle are reported\<close>

lemma static_cast_int_of_int: "static_cast_int (of_int i) = i"
  by (simp add: static_cast_int_def)

lemma grid_covers_bounds_new:
  assumes "TerrainStorageEngine_new db a b c d g n = Constructed e"
  shows "grid_covers_bounds e"
proof -
  from assms have g: "0 < g" and e: "e = \<lparr>db_manager = db, min_lon = a, min_lat = b,
                 max_lon = c, max_lat = d, grid_size = g,
                 grid_rows = \<lceil>(d - b) / g\<rceil>, grid_cols = \<lceil>(c - a) / g\<rceil>,
                 id_width = 3, cache = GridLRUCache_new n\<rparr>"
    by (auto simp: TerrainStorageEngine_new_def Let_def static_cast_int_of_int split: if_splits)
  show ?thesis unfolding grid_covers_bounds_def e using g by simp
qed

lemma static_cast_int_mono: "x \<le> y \<Longrightarrow> static_cast_int x \<le> static_cast_int y"
proof -
  assume xy: "x \<le> y"
  show ?thesis
  proof (cases "0 \<le> x")
    case True
    with xy show ?thesis by (simp add: static_cast_int_def floor_mono)
  next
    case False
    show ?thesis
    proof (cases "0 \<le> y")
      case True
      from False have "\<lceil>x\<rceil> \<le> 0" by (simp add: ceiling_le_zero)
      moreover from True have "0 \<le> \<lfloor>y\<rfloor>" by simp
      ultimately have "\<lceil>x\<rceil> \<le> \<lfloor>y\<rfloor>" by (rule order_trans)
      then show ?thesis using False True by (simp add: static_cast_int_def)
    next
      case y: False
      with False xy show ?thesis by (simp add: static_cast_int_def ceiling_mono)
    qed
  qed
qed

lemma lonToGridCol_mono:
  assumes "0 < grid_size e" "a \<le> b"
  shows "lonToGridCol e a \<le> lonToGridCol e b"
proof -
  from assms(2) have "max (min_lon e) (min (max_lon e) a) \<le> max (min_lon e) (min (max_lon e) b)"
    unfolding max_def min_def by auto
  then have "(max (min_lon e) (min (max_lon e) a) - min_lon e) / grid_size e \<le>
             (max (min_lon e) (min (max_lon e) b) - min_lon e) / grid_size e"
    using assms(1) by (simp add: divide_right_mono)
  then show ?thesis unfolding lonToGridCol_def Let_def by (rule static_cast_int_mono)
qed

lemma latToGridRow_mono:
  assumes "0 < grid_size e" "a \<le> b"
  shows "latToGridRow e a \<le> latToGridRow e b"
proof -
  from assms(2) have "max (min_lat e) (min (max_lat e) a) \<le> max (min_lat e) (min (max_lat e) b)"
    unfolding max_def min_def by auto
  then have "(max (min_lat e) (min (max_lat e) a) - min_lat e) / grid_size e \<le>
             (max (min_lat e) (min (max_lat e) b) - min_lat e) / grid_size e"
    using assms(1) by (simp add: divide_right_mono)
  then show ?thesis unfolding latToGridRow_def Let_def by (rule static_cast_int_mono)
qed

text \<open>The index of a coordinate inside the bounds and below the upper bound.\<close>

lemma grid_index_range:
  assumes g: "0 < g" and n: "(mx - mn) / g \<le> of_int n" and lo: "mn \<le> x" and hi: "x < mx"
  shows "0 \<le> static_cast_int ((max mn (min mx x) - mn) / g)"
    and "static_cast_int ((max mn (min mx x) - mn) / g) \<le> n - 1"
proof -
  from lo hi have nx: "max mn (min mx x) = x" by simp
  from lo g have nn: "0 \<le> (x - mn) / g" by simp
  then have sc: "static_cast_int ((x - mn) / g) = \<lfloor>(x - mn) / g\<rfloor>"
    by (simp add: static_cast_int_def)
  from nn show "0 \<le> static_cast_int ((max mn (min mx x) - mn) / g)"
    unfolding nx sc by simp
  from hi g have "(x - mn) / g < (mx - mn) / g" by (simp add: divide_strict_right_mono)
  with n have "(x - mn) / g < of_int n" by simp
  then have "\<lfloor>(x - mn) / g\<rfloor> < n" by (simp add: floor_less_iff)
  then show "static_cast_int ((max mn (min mx x) - mn) / g) \<le> n - 1"
    unfolding nx sc by simp
qed

lemma covered_cells_member:
  assumes "max 0 (lonToGridCol e a) \<le> col" "col \<le> min (grid_cols e - 1) (lonToGridCol e c)"
    and "max 0 (latToGridRow e b) \<le> row" "row \<le> min (grid_rows e - 1) (latToGridRow e d)"
  shows "formatGridId row col \<in> set (covered_cells e a b c d)"
proof -
  have c: "col \<in> set [max 0 (lonToGridCol e a)..min (grid_cols e - 1) (lonToGridCol e c)]"
    using assms(1,2) by simp
  have r: "row \<in> set [max 0 (latToGridRow e b)..min (grid_rows e - 1) (latToGridRow e d)]"
    using assms(3,4) by simp
  from c have m: "formatGridId row col \<in>
      formatGridId row ` set [max 0 (lonToGridCol e a)..min (grid_cols e - 1) (lonToGridCol e c)]"
    by (rule imageI)
  show ?thesis
    unfolding covered_cells_def Let_def set_concat set_map image_image
    by (rule UN_I [OF r]) (rule m)
qed

lemma cell_of_point_covered:
  assumes wf: "grid_covers_bounds e" and wb: "isWithinBounds e lon lat"
    and up: "lon < max_lon e" "lat < max_lat e"
    and r: "in_rectangle a b c d (lon, lat)"
  shows "computeGridId e lon lat \<in> set (covered_cells e a b c d)"
proof -
  from wf have g: "0 < grid_size e"
    and nc: "(max_lon e - min_lon e) / grid_size e \<le> of_int (grid_cols e)"
    and nr: "(max_lat e - min_lat e) / grid_size e \<le> of_int (grid_rows e)"
    by (simp_all add: grid_covers_bounds_def)
  from wb have lo: "min_lon e \<le> lon" "min_lat e \<le> lat" by (simp_all add: isWithinBounds_def)
  from r have q: "a \<le> lon" "lon \<le> c" "b \<le> lat" "lat \<le> d" by (simp_all add: in_rectangle_def)
  have col1: "0 \<le> lonToGridCol e lon"
    unfolding lonToGridCol_def Let_def by (rule grid_index_range(1) [OF g nc lo(1) up(1)])
  have col2: "lonToGridCol e lon \<le> grid_cols e - 1"
    unfolding lonToGridCol_def Let_def by (rule grid_index_range(2) [OF g nc lo(1) up(1)])
  have row1: "0 \<le> latToGridRow e lat"
    unfolding latToGridRow_def Let_def by (rule grid_index_range(1) [OF g nr lo(2) up(2)])
  have row2: "latToGridRow e lat \<le> grid_rows e - 1"
    unfolding latToGridRow_def Let_def by (rule grid_index_range(2) [OF g nr lo(2) up(2)])
  have "max 0 (lonToGridCol e a) \<le> lonToGridCol e lon"
    by (rule max.boundedI [OF col1 lonToGridCol_mono [OF g q(1)]])
  moreover have "lonToGridCol e lon \<le> min (grid_cols e - 1) (lonToGridCol e c)"
    by (rule min.boundedI [OF col2 lonToGridCol_mono [OF g q(2)]])
  moreover have "max 0 (latToGridRow e b) \<le> latToGridRow e lat"
    by (rule max.boundedI [OF row1 latToGridRow_mono [OF g q(3)]])
  moreover have "latToGridRow e lat \<le> min (grid_rows e - 1) (latToGridRow e d)"
    by (rule min.boundedI [OF row2 latToGridRow_mono [OF g q(4)]])
  ultimately show ?thesis
    unfolding computeGridId_def Let_def by (rule covered_cells_member)
qed

lemma covered_cells_db [simp]:
  "covered_cells (e\<lparr>db_manager := d\<rparr>) = covered_cells e"
  by (simp add: covered_cells_def lonToGridCol_def latToGridRow_def fun_eq_iff)

text \<open>
  A point the store holds is reported, with the coordinates its key records, by a query
  that visits its cell and whose rectangle contains those coordinates.
\<close>

lemma stored_point_reported:
  assumes cons: "cache_consistent e"
    and st: "(generateKey lon lat (computeGridId e lon lat), v) \<in> set (db_manager e)"
    and cov: "computeGridId e lon lat \<in> set (covered_cells e a b c d)"
    and r: "in_rectangle a b c d (round7 lon, round7 lat)"
  shows "(round7 lon, round7 lat, v) \<in> set (fst (fst (rangeQuery e a b c d)))"
proof -
  let ?g = "computeGridId e lon lat"
  let ?k = "generateKey lon lat ?g"
  have gb: "CHR ''|'' \<notin> set ?g" by (simp add: computeGridId_def formatGridId_bar_free)
  note pk = parseKey_generateKey [OF gb, of lon lat]
  from generateKey_in_cell_range [of ?g lon lat]
  have rg: "?g @ ''|'' \<le> ?k" "?k < ?g @ ''|~''" by (simp_all add: less_imp_le)
  show ?thesis
    unfolding rangeQuery_results [OF cons]
    by (intro CollectI case_prodI, rule exI [of _ ?k], rule exI [of _ ?g],
        intro conjI cov st rg pk r)
qed

lemma put_stores_point:
  assumes "put e lon lat v = Inr e'"
  shows "(generateKey lon lat (computeGridId e' lon lat), v) \<in> set (db_manager e')"
proof -
  let ?k = "generateKey lon lat (computeGridId e lon lat)"
  from assms obtain c2 where e': "e' = e\<lparr>cache := c2, db_manager := AList.update ?k v (db_manager e)\<rparr>"
    by (auto simp: put_def Let_def LevelDBManager_put_def split: if_splits prod.splits)
  have "map_of (AList.update ?k v (db_manager e)) ?k = Some v" by (simp add: update_conv')
  then have "(?k, v) \<in> set (AList.update ?k v (db_manager e))" by (rule map_of_SomeD)
  then show ?thesis by (simp add: e')
qed

text \<open>
  So a point written with at most seven fractional digits, inside the bounds and below
  both upper bounds, is reported by every query whose rectangle contains it, when the
  grid covers the bounds.
\<close>

lemma put_point_reported:
  assumes inv: "engine_inv e" and wf: "grid_covers_bounds e"
    and p: "put e lon lat v = Inr e'"
    and up: "lon < max_lon e" "lat < max_lat e"
    and ex: "lon * 10 ^ 7 = of_int m" "lat * 10 ^ 7 = of_int n"
    and r: "in_rectangle a b c d (lon, lat)"
  shows "(lon, lat, v) \<in> set (fst (fst (rangeQuery e' a b c d)))"
proof -
  from p have wb: "isWithinBounds e lon lat" by (simp add: put_def split: if_splits)
  from p obtain c2 d2 where e': "e' = e\<lparr>cache := c2, db_manager := d2\<rparr>"
    by (auto simp: put_def Let_def split: if_splits prod.splits)
  have cons: "cache_consistent e'"
    using engine_inv_put [OF inv p] by (simp add: engine_inv_def)
  have cov: "computeGridId e' lon lat \<in> set (covered_cells e' a b c d)"
    using cell_of_point_covered [OF wf wb up r] by (simp add: e')
  have rr: "in_rectangle a b c d (round7 lon, round7 lat)"
    using r by (simp add: round7_exact [OF ex(1)] round7_exact [OF ex(2)])
  from stored_point_reported [OF cons put_stores_point [OF p] cov rr]
  show ?thesis by (simp add: round7_exact [OF ex(1)] round7_exact [OF ex(2)])
qed


subsection \<open>What a range query reports\<close>





subsection \<open>The worker pool: order of dequeueing\<close>

inductive_cases pool_step_TakeE: "pool_step s (Take i t) s'"
inductive_cases pool_step_StartE: "pool_step s (Start i t) s'"
inductive_cases pool_run_ConsE: "pool_run s (ev # evs) s'"
inductive_cases pool_run_NilE: "pool_run s [] s'"

lemma is_top_highest:
  assumes "is_top q t" "u \<in> set q"
  shows "priority_value (priority t) \<le> priority_value (priority u)"
  using assms by (auto simp: is_top_def TaskCompare_def list_all_iff not_less)

lemma high_blocks_low:
  assumes "a \<in> set q" "priority a = HIGH" "priority b = LOW"
  shows "\<not> is_top q b"
  using is_top_highest [of q b a] assms by auto

text \<open>As long as the HIGH task has not been taken it is in the queue, or the queue is gone.\<close>

lemma high_stays_queued:
  assumes "pool_step s ev s'" "a \<in> set (task_queue s) \<or> (task_queue s = [] \<and> \<not> running s)"
    and "\<forall>i. ev \<noteq> Take i a"
  shows "a \<in> set (task_queue s') \<or> (task_queue s' = [] \<and> \<not> running s')"
  using assms
proof (cases rule: pool_step.cases)
  case (take i t)
  with assms(3) have "t \<noteq> a" by auto
  with take assms(2) show ?thesis by (auto simp: is_top_def)
next
  case (destroy)
  then show ?thesis by (simp add: destroy_def shutdown_returned_def)
qed auto

lemma high_taken_first:
  assumes "pool_run s evs s'"
    and "a \<in> set (task_queue s) \<or> (task_queue s = [] \<and> \<not> running s)"
    and "priority a = HIGH" "priority b = LOW"
    and "evs = pre @ Take j b # post"
  shows "\<exists>i. Take i a \<in> set pre"
  using assms
proof (induction arbitrary: pre rule: pool_run.induct)
  case (run_nil s)
  then show ?case by simp
next
  case (run_step s ev s1 evs s2)
  show ?case
  proof (cases pre)
    case Nil
    with run_step.prems(4) have ev: "ev = Take j b" by simp
    from run_step.hyps(1) [unfolded ev] have "is_top (task_queue s) b"
      by (rule pool_step_TakeE)
    with run_step.prems(1-3) show ?thesis
      using high_blocks_low [of a "task_queue s" b] by (auto simp: is_top_def)
  next
    case (Cons ev' pre')
    with run_step.prems(4) have ev: "ev' = ev" and evs: "evs = pre' @ Take j b # post" by simp_all
    show ?thesis
    proof (cases "\<exists>i. ev = Take i a")
      case True
      then show ?thesis by (auto simp: Cons ev)
    next
      case False
      then have "\<forall>i. ev \<noteq> Take i a" by blast
      from high_stays_queued [OF run_step.hyps(1) run_step.prems(1) this]
      have "a \<in> set (task_queue s1) \<or> (task_queue s1 = [] \<and> \<not> running s1)" .
      from run_step.IH [OF this run_step.prems(2,3) evs] show ?thesis by (auto simp: Cons)
    qed
  qed
qed

text \<open>A task is started by the worker that holds it, which has taken it before.\<close>

lemma holding_after_step:
  assumes "pool_step s ev s'" "Holding b \<notin> set (workers s)" "\<forall>i. ev \<noteq> Take i b"
  shows "Holding b \<notin> set (workers s')"
  using assms
proof (cases rule: pool_step.cases)
  case (take i t)
  with assms(3) have "t \<noteq> b" by auto
  with take assms(2) set_update_subset_insert [of "workers s" i "Holding t"]
  show ?thesis by auto
next
  case (check_running i)
  with assms(2) set_update_subset_insert [of "workers s" i Waiting] show ?thesis by auto
next
  case (check_stopped i)
  with assms(2) set_update_subset_insert [of "workers s" i Exited] show ?thesis by auto
next
  case (exit_idle i)
  with assms(2) set_update_subset_insert [of "workers s" i Exited] show ?thesis by auto
next
  case (start i t)
  with assms(2) set_update_subset_insert [of "workers s" i "Executing t"] show ?thesis by auto
next
  case (finish i t)
  with assms(2) set_update_subset_insert [of "workers s" i LoopHead] show ?thesis by auto
next
  case (submit t)
  with assms(2) show ?thesis by simp
next
  case shutdown
  with assms(2) show ?thesis by simp
next
  case destroy
  with assms(2) show ?thesis by (simp add: destroy_def)
qed

lemma start_after_take:
  assumes "pool_run s evs s'" "Holding b \<notin> set (workers s)" "evs = pre @ Start j b # post"
  shows "\<exists>i. Take i b \<in> set pre"
  using assms
proof (induction arbitrary: pre rule: pool_run.induct)
  case (run_nil s)
  then show ?case by simp
next
  case (run_step s ev s1 evs s2)
  show ?case
  proof (cases pre)
    case Nil
    with run_step.prems(2) have ev: "ev = Start j b" by simp
    from run_step.hyps(1) [unfolded ev] have "j < length (workers s) \<and> workers s ! j = Holding b"
      by (rule pool_step_StartE) simp
    then have "Holding b \<in> set (workers s)" by (metis nth_mem)
    with run_step.prems(1) show ?thesis by simp
  next
    case (Cons ev' pre')
    with run_step.prems(2) have ev: "ev' = ev" and evs: "evs = pre' @ Start j b # post" by simp_all
    show ?thesis
    proof (cases "\<exists>i. ev = Take i b")
      case True
      then show ?thesis by (auto simp: Cons ev)
    next
      case False
      then have "\<forall>i. ev \<noteq> Take i b" by blast
      from holding_after_step [OF run_step.hyps(1) run_step.prems(1) this]
      have "Holding b \<notin> set (workers s1)" .
      from run_step.IH [OF this evs] show ?thesis by (auto simp: Cons)
    qed
  qed
qed

lemma pool_run_append:
  "pool_run s (xs @ ys) s' \<Longrightarrow> \<exists>s1. pool_run s xs s1 \<and> pool_run s1 ys s'"
proof (induction xs arbitrary: s)
  case Nil
  then show ?case by (auto intro: pool_run.run_nil)
next
  case (Cons x xs)
  from Cons.prems obtain s0 where st: "pool_step s x s0" and r: "pool_run s0 (xs @ ys) s'"
    by (auto elim: pool_run_ConsE)
  from Cons.IH [OF r] obtain s1 where "pool_run s0 xs s1" "pool_run s1 ys s'" by blast
  with st show ?case by (auto intro: pool_run.run_step)
qed

lemma low_starts_after_high_taken:
  assumes run: "pool_run s evs s'" and a: "a \<in> set (task_queue s)"
    and pr: "priority a = HIGH" "priority b = LOW"
    and nb: "Holding b \<notin> set (workers s)"
    and evs: "evs = pre @ Start j b # post"
  shows "\<exists>k. Take k a \<in> set pre"
proof -
  from start_after_take [OF run nb evs] obtain i where "Take i b \<in> set pre" by blast
  then obtain p1 p2 where pre: "pre = p1 @ Take i b # p2" by (meson split_list)
  have "evs = p1 @ Take i b # (p2 @ Start j b # post)" by (simp add: evs pre)
  from high_taken_first [OF run _ pr this] a have "\<exists>k. Take k a \<in> set p1" by blast
  then show ?thesis by (auto simp: pre)
qed

text \<open>
  With one worker the starts follow the dequeues: until it has started the HIGH task, the
  worker does not hold the LOW one.
\<close>

lemma single_worker_step:
  assumes st: "pool_step s ev s'" and one: "length (workers s) = 1"
    and nb: "workers s ! 0 \<noteq> Holding b"
    and ha: "a \<in> set (task_queue s) \<or> workers s ! 0 = Exited \<or> workers s ! 0 = Holding a"
    and pr: "priority a = HIGH" "priority b = LOW"
    and ns: "\<forall>k. ev \<noteq> Start k a"
  shows "length (workers s') = 1 \<and> workers s' ! 0 \<noteq> Holding b \<and>
         (a \<in> set (task_queue s') \<or> workers s' ! 0 = Exited \<or> workers s' ! 0 = Holding a)"
  using st
proof (cases rule: pool_step.cases)
  case (submit t)
  with one nb ha show ?thesis by auto
next
  case (check_running i)
  with one have i: "i = 0" by simp
  from check_running ha have "a \<in> set (task_queue s)" by (auto simp: i)
  with check_running one show ?thesis by (simp add: i)
next
  case (check_stopped i)
  with one have i: "i = 0" by simp
  from check_stopped one show ?thesis by (simp add: i)
next
  case (take i t)
  with one have i: "i = 0" by simp
  from take ha have q: "a \<in> set (task_queue s)" by (auto simp: i)
  from take high_blocks_low [OF q pr] have tb: "t \<noteq> b" by auto
  have "t = a \<or> a \<in> set (remove1 t (task_queue s))"
    using q by (cases "t = a") (simp_all add: in_set_remove1)
  with take one tb show ?thesis by (auto simp: i)
next
  case (exit_idle i)
  with one have i: "i = 0" by simp
  from exit_idle one show ?thesis by (simp add: i)
next
  case (start i t)
  with one have i: "i = 0" by simp
  from start ns have ta: "t \<noteq> a" by auto
  with start ha have "a \<in> set (task_queue s)" by (auto simp: i)
  with start one show ?thesis by (simp add: i)
next
  case (finish i t)
  with one have i: "i = 0" by simp
  from finish ha have "a \<in> set (task_queue s)" by (auto simp: i)
  with finish one show ?thesis by (simp add: i)
next
  case shutdown
  with one nb ha show ?thesis by auto
next
  case destroy
  from destroy(3) one have "workers s ! 0 = Exited"
    by (simp add: shutdown_returned_def list_all_length)
  with destroy one nb show ?thesis by (simp add: destroy_def)
qed

lemma single_worker_start_order:
  assumes "pool_run s evs s'" and "length (workers s) = 1"
    and "workers s ! 0 \<noteq> Holding b"
    and "a \<in> set (task_queue s) \<or> workers s ! 0 = Exited \<or> workers s ! 0 = Holding a"
    and "priority a = HIGH" "priority b = LOW"
    and "evs = pre @ Start j b # post"
  shows "\<exists>k. Start k a \<in> set pre"
  using assms
proof (induction arbitrary: pre rule: pool_run.induct)
  case (run_nil s)
  then show ?case by simp
next
  case (run_step s ev s1 evs s2)
  show ?case
  proof (cases pre)
    case Nil
    with run_step.prems(6) have ev: "ev = Start j b" by simp
    from run_step.hyps(1) [unfolded ev] have "j < length (workers s) \<and> workers s ! j = Holding b"
      by (rule pool_step_StartE) simp
    with run_step.prems(1,2) show ?thesis by auto
  next
    case (Cons ev' pre')
    with run_step.prems(6) have ev: "ev' = ev" and evs: "evs = pre' @ Start j b # post" by simp_all
    show ?thesis
    proof (cases "\<exists>k. ev = Start k a")
      case True
      then show ?thesis by (auto simp: Cons ev)
    next
      case False
      then have "\<forall>k. ev \<noteq> Start k a" by blast
      from single_worker_step [OF run_step.hyps(1) run_step.prems(1-5) this]
      have n: "length (workers s1) = 1" "workers s1 ! 0 \<noteq> Holding b"
        "a \<in> set (task_queue s1) \<or> workers s1 ! 0 = Exited \<or> workers s1 ! 0 = Holding a"
        by blast+
      from run_step.IH [OF n run_step.prems(4,5) evs] show ?thesis by (auto simp: Cons)
    qed
  qed
qed

text \<open>
  C8, as stated, fails for the start of the tasks. A HIGH and a LOW task are submitted
  before either of two workers waits; the first worker takes the HIGH task, the second the
  LOW task, and the second worker starts and finishes the LOW task while the first still
  holds the HIGH task, not yet started: a task is started outside the queue lock.
\<close>

theorem start_order_counterexample:
  "pool_run (AdvancedThreadPool_new 2 1024)
     [Submit \<lparr>priority = LOW, task = 1\<rparr>, Submit \<lparr>priority = HIGH, task = 0\<rparr>, Check 0, Check 1,
      Take 0 \<lparr>priority = HIGH, task = 0\<rparr>, Take 1 \<lparr>priority = LOW, task = 1\<rparr>,
      Start 1 \<lparr>priority = LOW, task = 1\<rparr>, Finish 1 \<lparr>priority = LOW, task = 1\<rparr>]
     \<lparr>running = True, max_tasks = 1024, task_queue = [],
      workers = [Holding \<lparr>priority = HIGH, task = 0\<rparr>, LoopHead],
      completed = [\<lparr>priority = LOW, task = 1\<rparr>], abandoned = []\<rparr>"
proof -
  let ?hi = "\<lparr>priority = HIGH, task = 0\<rparr>"
  let ?lo = "\<lparr>priority = LOW, task = 1\<rparr>"
  let ?s0 = "AdvancedThreadPool_new 2 1024"
  let ?s1 = "\<lparr>running = True, max_tasks = 1024, task_queue = [?lo],
      workers = [LoopHead, LoopHead], completed = [], abandoned = []\<rparr>"
  let ?s2 = "\<lparr>running = True, max_tasks = 1024, task_queue = [?lo, ?hi],
      workers = [LoopHead, LoopHead], completed = [], abandoned = []\<rparr>"
  let ?s3 = "\<lparr>running = True, max_tasks = 1024, task_queue = [?lo, ?hi],
      workers = [Waiting, LoopHead], completed = [], abandoned = []\<rparr>"
  let ?s4 = "\<lparr>running = True, max_tasks = 1024, task_queue = [?lo, ?hi],
      workers = [Waiting, Waiting], completed = [], abandoned = []\<rparr>"
  let ?s5 = "\<lparr>running = True, max_tasks = 1024, task_queue = [?lo],
      workers = [Holding ?hi, Waiting], completed = [], abandoned = []\<rparr>"
  let ?s6 = "\<lparr>running = True, max_tasks = 1024, task_queue = [],
      workers = [Holding ?hi, Holding ?lo], completed = [], abandoned = []\<rparr>"
  let ?s7 = "\<lparr>running = True, max_tasks = 1024, task_queue = [],
      workers = [Holding ?hi, Executing ?lo], completed = [], abandoned = []\<rparr>"
  let ?s8 = "\<lparr>running = True, max_tasks = 1024, task_queue = [],
      workers = [Holding ?hi, LoopHead], completed = [?lo], abandoned = []\<rparr>"
  have a1: "pool_step ?s0 (Submit ?lo) ?s1"
    using pool_step.submit [of ?s0 ?lo] by (simp add: AdvancedThreadPool_new_def numeral_2_eq_2)
  have a2: "pool_step ?s1 (Submit ?hi) ?s2"
    using pool_step.submit [of ?s1 ?hi] by simp
  have a3: "pool_step ?s2 (Check 0) ?s3"
    using pool_step.check_running [of 0 ?s2] by simp
  have a4: "pool_step ?s3 (Check 1) ?s4"
    using pool_step.check_running [of 1 ?s3] by simp
  have a5: "pool_step ?s4 (Take 0 ?hi) ?s5"
    using pool_step.take [of 0 ?s4 ?hi] by (simp add: is_top_def TaskCompare_def)
  have a6: "pool_step ?s5 (Take 1 ?lo) ?s6"
    using pool_step.take [of 1 ?s5 ?lo] by (simp add: is_top_def TaskCompare_def)
  have a7: "pool_step ?s6 (Start 1 ?lo) ?s7"
    using pool_step.start [of 1 ?s6 ?lo] by simp
  have a8: "pool_step ?s7 (Finish 1 ?lo) ?s8"
    using pool_step.finish [of 1 ?s7 ?lo] by simp
  show ?thesis
    by (intro pool_run.run_step [OF a1] pool_run.run_step [OF a2] pool_run.run_step [OF a3]
        pool_run.run_step [OF a4] pool_run.run_step [OF a5] pool_run.run_step [OF a6]
        pool_run.run_step [OF a7] pool_run.run_step [OF a8] pool_run.run_nil)
qed

text \<open>
  C8, amended: a task a worker takes is in the queue and no task in the queue has a higher
  priority (a smaller value: HIGH before NORMAL before LOW); any queued task of the same
  priority could have been taken instead; and in every run that starts with a HIGH task in
  the queue, a LOW task is taken only after that HIGH task has been taken. Hence a LOW task
  that no worker holds yet is started only after the HIGH task has been taken, and with a
  single worker only after the HIGH task has been started. With several workers the order
  in which the two tasks start is not determined.
\<close>

theorem dequeue_respects_priority:
  "(pool_step s (Take i t) s' \<longrightarrow>
      t \<in> set (task_queue s) \<and>
      (\<forall>u\<in>set (task_queue s). priority_value (priority t) \<le> priority_value (priority u))) \<and>
   (is_top q a \<and> b \<in> set q \<and> priority b = priority a \<longrightarrow> is_top q b) \<and>
   (pool_run s evs s'' \<and> a \<in> set (task_queue s) \<and> priority a = HIGH \<and> priority b = LOW \<and>
    evs = pre @ Take j b # post \<longrightarrow> (\<exists>k. Take k a \<in> set pre)) \<and>
   (pool_run s evs s'' \<and> a \<in> set (task_queue s) \<and> priority a = HIGH \<and> priority b = LOW \<and>
    Holding b \<notin> set (workers s) \<and> evs = pre @ Start j b # post \<longrightarrow> (\<exists>k. Take k a \<in> set pre)) \<and>
   (pool_run s evs s'' \<and> a \<in> set (task_queue s) \<and> priority a = HIGH \<and> priority b = LOW \<and>
    length (workers s) = 1 \<and> workers s ! 0 \<noteq> Holding b \<and> evs = pre @ Start j b # post \<longrightarrow>
      (\<exists>k. Start k a \<in> set pre))"
proof -
  have c1: "pool_step s (Take i t) s' \<longrightarrow>
      t \<in> set (task_queue s) \<and>
      (\<forall>u\<in>set (task_queue s). priority_value (priority t) \<le> priority_value (priority u))"
  proof
    assume "pool_step s (Take i t) s'"
    then have top: "is_top (task_queue s) t" by (rule pool_step_TakeE)
    then have "t \<in> set (task_queue s)" by (simp add: is_top_def)
    moreover from top
    have "\<forall>u\<in>set (task_queue s). priority_value (priority t) \<le> priority_value (priority u)"
      by (auto intro: is_top_highest)
    ultimately show "t \<in> set (task_queue s) \<and>
      (\<forall>u\<in>set (task_queue s). priority_value (priority t) \<le> priority_value (priority u))" ..
  qed
  have c2: "is_top q a \<and> b \<in> set q \<and> priority b = priority a \<longrightarrow> is_top q b"
    by (auto simp: is_top_def TaskCompare_def list_all_iff)
  have c3: "pool_run s evs s'' \<and> a \<in> set (task_queue s) \<and> priority a = HIGH \<and> priority b = LOW \<and>
    evs = pre @ Take j b # post \<longrightarrow> (\<exists>k. Take k a \<in> set pre)"
    using high_taken_first [of s evs s'' a b pre j post] by blast
  have c4: "pool_run s evs s'' \<and> a \<in> set (task_queue s) \<and> priority a = HIGH \<and> priority b = LOW \<and>
    Holding b \<notin> set (workers s) \<and> evs = pre @ Start j b # post \<longrightarrow> (\<exists>k. Take k a \<in> set pre)"
    using low_starts_after_high_taken [of s evs s'' a b pre j post] by blast
  have c5: "pool_run s evs s'' \<and> a \<in> set (task_queue s) \<and> priority a = HIGH \<and> priority b = LOW \<and>
    length (workers s) = 1 \<and> workers s ! 0 \<noteq> Holding b \<and> evs = pre @ Start j b # post \<longrightarrow>
      (\<exists>k. Start k a \<in> set pre)"
    using single_worker_start_order [of s evs s'' b a pre j post] by blast
  from c1 c2 c3 c4 c5 show ?thesis by blast
qed

theorem dequeue_respects_priority_witness:
  "pool_step
     \<lparr>running = True, max_tasks = 1024,
      task_queue = [\<lparr>priority = LOW, task = 1\<rparr>, \<lparr>priority = HIGH, task = 0\<rparr>],
      workers = [Waiting], completed = [], abandoned = []\<rparr>
     (Take 0 \<lparr>priority = HIGH, task = 0\<rparr>)
     \<lparr>running = True, max_tasks = 1024, task_queue = [\<lparr>priority = LOW, task = 1\<rparr>],
      workers = [Holding \<lparr>priority = HIGH, task = 0\<rparr>], completed = [], abandoned = []\<rparr> \<and>
   priority_value (priority \<lparr>priority = HIGH, task = 0\<rparr>) \<le>
     priority_value (priority \<lparr>priority = LOW, task = 1\<rparr>) \<and>
   pool_run
     \<lparr>running = True, max_tasks = 1024,
      task_queue = [\<lparr>priority = LOW, task = 1\<rparr>, \<lparr>priority = HIGH, task = 0\<rparr>],
      workers = [Waiting], completed = [], abandoned = []\<rparr>
     [Take 0 \<lparr>priority = HIGH, task = 0\<rparr>, Start 0 \<lparr>priority = HIGH, task = 0\<rparr>,
      Finish 0 \<lparr>priority = HIGH, task = 0\<rparr>, Check 0,
      Take 0 \<lparr>priority = LOW, task = 1\<rparr>, Start 0 \<lparr>priority = LOW, task = 1\<rparr>]
     \<lparr>running = True, max_tasks = 1024, task_queue = [],
      workers = [Executing \<lparr>priority = LOW, task = 1\<rparr>],
      completed = [\<lparr>priority = HIGH, task = 0\<rparr>], abandoned = []\<rparr> \<and>
   (\<exists>k. Take k \<lparr>priority = HIGH, task = 0\<rparr> \<in>
      set [Take 0 \<lparr>priority = HIGH, task = 0\<rparr>, Start 0 \<lparr>priority = HIGH, task = 0\<rparr>,
           Finish 0 \<lparr>priority = HIGH, task = 0\<rparr>, Check 0]) \<and>
   (\<exists>k. Start k \<lparr>priority = HIGH, task = 0\<rparr> \<in>
      set [Take 0 \<lparr>priority = HIGH, task = 0\<rparr>, Start 0 \<lparr>priority = HIGH, task = 0\<rparr>,
           Finish 0 \<lparr>priority = HIGH, task = 0\<rparr>, Check 0,
           Take 0 \<lparr>priority = LOW, task = 1\<rparr>])"
proof -
  let ?hi = "\<lparr>priority = HIGH, task = 0\<rparr>"
  let ?lo = "\<lparr>priority = LOW, task = 1\<rparr>"
  let ?s0 = "\<lparr>running = True, max_tasks = 1024, task_queue = [?lo, ?hi],
      workers = [Waiting], completed = [], abandoned = []\<rparr>"
  let ?s1 = "\<lparr>running = True, max_tasks = 1024, task_queue = [?lo],
      workers = [Holding ?hi], completed = [], abandoned = []\<rparr>"
  let ?s1' = "\<lparr>running = True, max_tasks = 1024, task_queue = [?lo],
      workers = [Executing ?hi], completed = [], abandoned = []\<rparr>"
  let ?s2 = "\<lparr>running = True, max_tasks = 1024, task_queue = [?lo],
      workers = [LoopHead], completed = [?hi], abandoned = []\<rparr>"
  let ?s3 = "\<lparr>running = True, max_tasks = 1024, task_queue = [?lo],
      workers = [Waiting], completed = [?hi], abandoned = []\<rparr>"
  let ?s4 = "\<lparr>running = True, max_tasks = 1024, task_queue = [],
      workers = [Holding ?lo], completed = [?hi], abandoned = []\<rparr>"
  let ?s5 = "\<lparr>running = True, max_tasks = 1024, task_queue = [],
      workers = [Executing ?lo], completed = [?hi], abandoned = []\<rparr>"
  let ?p3 = "[Take 0 ?hi, Start 0 ?hi, Finish 0 ?hi, Check 0]"
  let ?evs = "[Take 0 ?hi, Start 0 ?hi, Finish 0 ?hi, Check 0, Take 0 ?lo, Start 0 ?lo]"
  have a1: "pool_step ?s0 (Take 0 ?hi) ?s1"
    using pool_step.take [of 0 ?s0 ?hi] by (simp add: is_top_def TaskCompare_def)
  have a1': "pool_step ?s1 (Start 0 ?hi) ?s1'"
    using pool_step.start [of 0 ?s1 ?hi] by simp
  have a2: "pool_step ?s1' (Finish 0 ?hi) ?s2"
    using pool_step.finish [of 0 ?s1' ?hi] by simp
  have a3: "pool_step ?s2 (Check 0) ?s3"
    using pool_step.check_running [of 0 ?s2] by simp
  have a4: "pool_step ?s3 (Take 0 ?lo) ?s4"
    using pool_step.take [of 0 ?s3 ?lo] by (simp add: is_top_def TaskCompare_def)
  have a5: "pool_step ?s4 (Start 0 ?lo) ?s5"
    using pool_step.start [of 0 ?s4 ?lo] by simp
  have run: "pool_run ?s0 ?evs ?s5"
    by (intro pool_run.run_step [OF a1] pool_run.run_step [OF a1'] pool_run.run_step [OF a2]
        pool_run.run_step [OF a3] pool_run.run_step [OF a4] pool_run.run_step [OF a5]
        pool_run.run_nil)
  note inst1 = dequeue_respects_priority [where s = ?s0 and i = 0 and t = ?hi and s' = ?s1
      and a = ?hi and b = ?lo and evs = ?evs and s'' = ?s5 and pre = ?p3 and j = 0
      and post = "[Start 0 ?lo]"]
  note inst2 = dequeue_respects_priority [where s = ?s0 and a = ?hi and b = ?lo and evs = ?evs
      and s'' = ?s5 and pre = "?p3 @ [Take 0 ?lo]" and j = 0 and post = "[]"]
  from inst1 a1 have le: "priority_value (priority ?hi) \<le> priority_value (priority ?lo)"
    by simp
  from inst1 run have ex: "\<exists>k. Take k ?hi \<in> set ?p3"
    by simp
  from inst2 run have ex2: "\<exists>k. Start k ?hi \<in> set (?p3 @ [Take 0 ?lo])"
    by simp
  from a1 le run ex ex2 show ?thesis by simp
qed

subsection \<open>The worker pool: shutdown\<close>

inductive_cases pool_step_FinishE: "pool_step s (Finish i t) s'"

lemma pool_run_single: "pool_step s ev s' \<Longrightarrow> pool_run s [ev] s'"
  by (rule pool_run.run_step [OF _ pool_run.run_nil])

lemma is_top_single: "is_top [t] t"
  by (simp add: is_top_def TaskCompare_def)

text \<open>
  C9, as stated, fails. In the first run a task is submitted while the only worker is
  busy; after \<open>shutdown\<close> has returned the task is still in the queue and its future is still
  pending, not broken. In the second run the worker is waiting when \<open>shutdown\<close> clears the
  flag, and it takes and runs the task that was in the queue.
\<close>

theorem shutdown_counterexample:
  "pool_run (AdvancedThreadPool_new 1 1024)
     [Check 0, Submit (job 0), Take 0 (job 0), Start 0 (job 0), Submit (job 1), Shutdown,
      Finish 0 (job 0), Check 0]
     \<lparr>running = False, max_tasks = 1024, task_queue = [job 1], workers = [Exited],
      completed = [job 0], abandoned = []\<rparr> \<and>
   shutdown_returned
     \<lparr>running = False, max_tasks = 1024, task_queue = [job 1], workers = [Exited],
      completed = [job 0], abandoned = []\<rparr> \<and>
   future_of
     \<lparr>running = False, max_tasks = 1024, task_queue = [job 1], workers = [Exited],
      completed = [job 0], abandoned = []\<rparr> (job 1) = Pending \<and>
   pool_run (AdvancedThreadPool_new 1 1024)
     [Check 0, Submit (job 0), Shutdown, Take 0 (job 0), Start 0 (job 0), Finish 0 (job 0), Check 0]
     \<lparr>running = False, max_tasks = 1024, task_queue = [], workers = [Exited],
      completed = [job 0], abandoned = []\<rparr>"
proof -
  let ?s0 = "AdvancedThreadPool_new 1 1024"
  let ?s1 = "\<lparr>running = True, max_tasks = 1024, task_queue = [], workers = [Waiting],
      completed = [], abandoned = []\<rparr>"
  let ?s2 = "\<lparr>running = True, max_tasks = 1024, task_queue = [job 0], workers = [Waiting],
      completed = [], abandoned = []\<rparr>"
  let ?s3h = "\<lparr>running = True, max_tasks = 1024, task_queue = [], workers = [Holding (job 0)],
      completed = [], abandoned = []\<rparr>"
  let ?s3 = "\<lparr>running = True, max_tasks = 1024, task_queue = [], workers = [Executing (job 0)],
      completed = [], abandoned = []\<rparr>"
  let ?s4 = "\<lparr>running = True, max_tasks = 1024, task_queue = [job 1], workers = [Executing (job 0)],
      completed = [], abandoned = []\<rparr>"
  let ?s5 = "\<lparr>running = False, max_tasks = 1024, task_queue = [job 1], workers = [Executing (job 0)],
      completed = [], abandoned = []\<rparr>"
  let ?s6 = "\<lparr>running = False, max_tasks = 1024, task_queue = [job 1], workers = [LoopHead],
      completed = [job 0], abandoned = []\<rparr>"
  let ?s7 = "\<lparr>running = False, max_tasks = 1024, task_queue = [job 1], workers = [Exited],
      completed = [job 0], abandoned = []\<rparr>"
  have a1: "pool_step ?s0 (Check 0) ?s1"
    using pool_step.check_running [of 0 ?s0] by (simp add: AdvancedThreadPool_new_def)
  have a2: "pool_step ?s1 (Submit (job 0)) ?s2"
    using pool_step.submit [of ?s1 "job 0"] by simp
  have a3h: "pool_step ?s2 (Take 0 (job 0)) ?s3h"
    using pool_step.take [of 0 ?s2 "job 0"] by (simp add: is_top_single)
  have a3: "pool_step ?s3h (Start 0 (job 0)) ?s3"
    using pool_step.start [of 0 ?s3h "job 0"] by simp
  have a4: "pool_step ?s3 (Submit (job 1)) ?s4"
    using pool_step.submit [of ?s3 "job 1"] by simp
  have a5: "pool_step ?s4 Shutdown ?s5"
    using pool_step.shutdown [of ?s4] by simp
  have a6: "pool_step ?s5 (Finish 0 (job 0)) ?s6"
    using pool_step.finish [of 0 ?s5 "job 0"] by simp
  have a7: "pool_step ?s6 (Check 0) ?s7"
    using pool_step.check_stopped [of 0 ?s6] by simp
  have run1: "pool_run ?s0
     [Check 0, Submit (job 0), Take 0 (job 0), Start 0 (job 0), Submit (job 1), Shutdown,
      Finish 0 (job 0), Check 0] ?s7"
    by (intro pool_run.run_step [OF a1] pool_run.run_step [OF a2] pool_run.run_step [OF a3h]
        pool_run.run_step [OF a3] pool_run.run_step [OF a4] pool_run.run_step [OF a5] pool_run.run_step [OF a6]
        pool_run.run_step [OF a7] pool_run.run_nil)
  let ?t3 = "\<lparr>running = False, max_tasks = 1024, task_queue = [job 0], workers = [Waiting],
      completed = [], abandoned = []\<rparr>"
  let ?t4h = "\<lparr>running = False, max_tasks = 1024, task_queue = [], workers = [Holding (job 0)],
      completed = [], abandoned = []\<rparr>"
  let ?t4 = "\<lparr>running = False, max_tasks = 1024, task_queue = [], workers = [Executing (job 0)],
      completed = [], abandoned = []\<rparr>"
  let ?t5 = "\<lparr>running = False, max_tasks = 1024, task_queue = [], workers = [LoopHead],
      completed = [job 0], abandoned = []\<rparr>"
  let ?t6 = "\<lparr>running = False, max_tasks = 1024, task_queue = [], workers = [Exited],
      completed = [job 0], abandoned = []\<rparr>"
  have b3: "pool_step ?s2 Shutdown ?t3"
    using pool_step.shutdown [of ?s2] by simp
  have b4h: "pool_step ?t3 (Take 0 (job 0)) ?t4h"
    using pool_step.take [of 0 ?t3 "job 0"] by (simp add: is_top_single)
  have b4: "pool_step ?t4h (Start 0 (job 0)) ?t4"
    using pool_step.start [of 0 ?t4h "job 0"] by simp
  have b5: "pool_step ?t4 (Finish 0 (job 0)) ?t5"
    using pool_step.finish [of 0 ?t4 "job 0"] by simp
  have b6: "pool_step ?t5 (Check 0) ?t6"
    using pool_step.check_stopped [of 0 ?t5] by simp
  have run2: "pool_run ?s0
     [Check 0, Submit (job 0), Shutdown, Take 0 (job 0), Start 0 (job 0), Finish 0 (job 0), Check 0] ?t6"
    by (intro pool_run.run_step [OF a1] pool_run.run_step [OF a2] pool_run.run_step [OF b3]
        pool_run.run_step [OF b4h] pool_run.run_step [OF b4] pool_run.run_step [OF b5] pool_run.run_step [OF b6]
        pool_run.run_nil)
  have r: "shutdown_returned ?s7" by (simp add: shutdown_returned_def)
  have f: "future_of ?s7 (job 1) = Pending" by (simp add: future_of_def job_def)
  from run1 r f run2 show ?thesis by blast
qed

lemma shutdown_returned_no_worker:
  assumes "shutdown_returned s" "i < length (workers s)"
  shows "workers s ! i = Exited"
  using assms by (simp add: shutdown_returned_def list_all_length)

lemma after_shutdown_returned:
  assumes r: "shutdown_returned s" and st: "pool_step s ev s'"
  shows "(ev = Shutdown \<and> s' = s) \<or> (ev = Destroy \<and> s' = destroy s)"
proof -
  from r have nr: "running s = False" by (simp add: shutdown_returned_def)
  from st show ?thesis
  proof (cases rule: pool_step.cases)
    case shutdown
    have "s\<lparr>running := running s\<rparr> = s" by simp
    with shutdown nr show ?thesis by simp
  next
    case (submit t)
    with nr show ?thesis by simp
  next
    case (check_running i)
    with nr show ?thesis by simp
  next
    case (check_stopped i)
    with shutdown_returned_no_worker [OF r, of i] show ?thesis by simp
  next
    case (take i t)
    with shutdown_returned_no_worker [OF r, of i] show ?thesis by simp
  next
    case (exit_idle i)
    with shutdown_returned_no_worker [OF r, of i] show ?thesis by simp
  next
    case (start i t)
    with shutdown_returned_no_worker [OF r, of i] show ?thesis by simp
  next
    case (finish i t)
    with shutdown_returned_no_worker [OF r, of i] show ?thesis by simp
  next
    case destroy
    then show ?thesis by simp
  qed
qed

lemma destroy_breaks_pending:
  assumes "t \<in> set (task_queue s)" "future_of s t = Pending"
  shows "future_of (destroy s) t = BrokenPromise" "task_queue (destroy s) = []"
  using assms by (auto simp: future_of_def destroy_def split: if_splits)

lemma stopped_worker_exits:
  assumes "\<not> running s" "i < length (workers s)" "workers s ! i = LoopHead"
    and st: "pool_step s (Check j) s'" and ch: "workers s' ! i \<noteq> workers s ! i"
  shows "workers s' ! i = Exited"
  using st
proof (cases rule: pool_step.cases)
  case check_running
  with assms(1) show ?thesis by simp
next
  case check_stopped
  with assms(2) ch show ?thesis by (cases "i = j") simp_all
qed

text \<open>
  C9, amended: once \<open>shutdown\<close> has returned nothing changes any more but by the destruction
  of the pool, so the tasks still queued are never executed; their futures, pending until
  then, are broken when the pool and its queue are destroyed. Before the workers have
  returned, a worker found waiting still takes a queued task, and a worker back at the
  head of its loop returns.
\<close>

theorem shutdown_leaves_queued_tasks_pending:
  "(shutdown_returned s \<and> pool_step s ev s' \<longrightarrow>
      (ev = Shutdown \<and> s' = s) \<or> (ev = Destroy \<and> s' = destroy s)) \<and>
   (shutdown_returned s \<and> t \<in> set (task_queue s) \<and> future_of s t = Pending \<longrightarrow>
      future_of (destroy s) t = BrokenPromise \<and> task_queue (destroy s) = []) \<and>
   (\<not> running s \<and> i < length (workers s) \<and> workers s ! i = Waiting \<and> is_top (task_queue s) t \<longrightarrow>
      pool_step s (Take i t)
        (s\<lparr>task_queue := remove1 t (task_queue s), workers := (workers s)[i := Holding t]\<rparr>)) \<and>
   (\<not> running s \<and> i < length (workers s) \<and> workers s ! i = LoopHead \<and> pool_step s (Check j) s' \<and>
    workers s' ! i \<noteq> workers s ! i \<longrightarrow> workers s' ! i = Exited)"
  using after_shutdown_returned [of s ev s'] destroy_breaks_pending [of t s]
    pool_step.take [of i s t] stopped_worker_exits [of s i j s']
  by blast

theorem shutdown_leaves_queued_tasks_pending_witness:
  "shutdown_returned
     \<lparr>running = False, max_tasks = 1024, task_queue = [job 1], workers = [Exited],
      completed = [job 0], abandoned = []\<rparr> \<and>
   pool_step
     \<lparr>running = False, max_tasks = 1024, task_queue = [job 1], workers = [Exited],
      completed = [job 0], abandoned = []\<rparr>
     Destroy
     \<lparr>running = False, max_tasks = 1024, task_queue = [], workers = [Exited],
      completed = [job 0], abandoned = [job 1]\<rparr> \<and>
   future_of
     \<lparr>running = False, max_tasks = 1024, task_queue = [job 1], workers = [Exited],
      completed = [job 0], abandoned = []\<rparr> (job 1) = Pending \<and>
   future_of
     \<lparr>running = False, max_tasks = 1024, task_queue = [], workers = [Exited],
      completed = [job 0], abandoned = [job 1]\<rparr> (job 1) = BrokenPromise \<and>
   pool_step
     \<lparr>running = False, max_tasks = 1024, task_queue = [job 0], workers = [Waiting],
      completed = [], abandoned = []\<rparr>
     (Take 0 (job 0))
     \<lparr>running = False, max_tasks = 1024, task_queue = [], workers = [Holding (job 0)],
      completed = [], abandoned = []\<rparr>"
proof -
  let ?s = "\<lparr>running = False, max_tasks = 1024, task_queue = [job 1], workers = [Exited],
      completed = [job 0], abandoned = []\<rparr>"
  let ?d = "\<lparr>running = False, max_tasks = 1024, task_queue = [], workers = [Exited],
      completed = [job 0], abandoned = [job 1]\<rparr>"
  let ?w = "\<lparr>running = False, max_tasks = 1024, task_queue = [job 0], workers = [Waiting],
      completed = [], abandoned = []\<rparr>"
  have r: "shutdown_returned ?s" by (simp add: shutdown_returned_def)
  have d: "destroy ?s = ?d" by (simp add: destroy_def)
  have st: "pool_step ?s Destroy ?d"
    using pool_step.destroy [OF r] unfolding d .
  have f: "future_of ?s (job 1) = Pending" by (simp add: future_of_def job_def)
  from shutdown_leaves_queued_tasks_pending [where s = ?s and t = "job 1"] r f d
  have b: "future_of ?d (job 1) = BrokenPromise" by simp
  from shutdown_leaves_queued_tasks_pending [where s = ?w and i = 0 and t = "job 0"]
  have tk: "pool_step ?w (Take 0 (job 0))
     \<lparr>running = False, max_tasks = 1024, task_queue = [], workers = [Holding (job 0)],
      completed = [], abandoned = []\<rparr>"
    by (simp add: is_top_single)
  from r st f b tk show ?thesis by blast
qed

end
